theory Spec2Isabelle
  imports Main "HOL-Library.Char_ord" "HOL-Library.List_Lexorder" "HOL-Library.Product_Lexorder"
    "HOL-Library.AList"
begin

section \<open>Strings and characters\<close>

text \<open>
  A Python \<open>str\<close> is modelled as a \<open>string\<close>, a list of code points below 256; a Python
  \<open>bytes\<close> value is a \<open>string\<close> as well, one \<open>char\<close> per byte. In that range the only
  characters matched by the regular expression class \<open>\d\<close> are \<open>0\<close> to \<open>9\<close>. Comparison
  of two \<open>str\<close> values is the lexicographic order on code points, which is the order of
  \<open>HOL-Library.List_Lexorder\<close> over \<open>HOL-Library.Char_ord\<close>.
\<close>

definition is_digit :: "char \<Rightarrow> bool" where
  "is_digit c = (48 \<le> (of_char c :: nat) \<and> (of_char c :: nat) \<le> 57)"

definition is_alpha :: "char \<Rightarrow> bool" where
  "is_alpha c = ((65 \<le> (of_char c :: nat) \<and> (of_char c :: nat) \<le> 90)
               \<or> (97 \<le> (of_char c :: nat) \<and> (of_char c :: nat) \<le> 122))"

text \<open>\<open>str.lower()\<close> on code points below 256: \<open>A\<close> to \<open>Z\<close> and the upper-case letters of
  Latin-1 (\<open>0xC0\<close> to \<open>0xDE\<close> without the multiplication sign \<open>0xD7\<close>) move up by 32.\<close>

definition lower_char :: "char \<Rightarrow> char" where
  "lower_char c =
     (let n = (of_char c :: nat)
      in if (65 \<le> n \<and> n \<le> 90) \<or> (192 \<le> n \<and> n \<le> 222 \<and> n \<noteq> 215)
         then char_of (n + 32) else c)"

definition lower :: "string \<Rightarrow> string" where
  "lower s = map lower_char s"

definition endswith :: "string \<Rightarrow> string \<Rightarrow> bool" where
  "endswith s suffix = (length suffix \<le> length s \<and> drop (length s - length suffix) s = suffix)"

section \<open>normalize_version\<close>

text \<open>
  \<open>re.findall(r"\d+|[A-Za-z]+", v)\<close>: the scan goes from left to right; at each position
  the first alternative \<open>\d+\<close> is tried, then \<open>[A-Za-z]+\<close>, both greedy; a position where
  neither matches is skipped; the scan goes on after the end of a match.
\<close>

function findall :: "string \<Rightarrow> string list" where
  "findall [] = []"
| "findall (c # cs) =
     (if is_digit c then (c # takeWhile is_digit cs) # findall (dropWhile is_digit cs)
      else if is_alpha c then (c # takeWhile is_alpha cs) # findall (dropWhile is_alpha cs)
      else findall cs)"
  by pat_completeness auto
termination
  by (relation "measure length") (auto simp: length_dropWhile_le less_Suc_eq_le)

text \<open>The exceptions of Python that the functions below can raise.\<close>

datatype py_error = TypeError | KeyError | FileNotFoundError | ValueError

text \<open>
  \<open>token.isdigit()\<close> and \<open>int(token)\<close>, on the tokens \<open>findall\<close> returns: runs of \<open>0\<close> to
  \<open>9\<close> or runs of \<open>A\<close> to \<open>Z\<close>, \<open>a\<close> to \<open>z\<close>. Python integers are unbounded, but
  the conversion of a string to an integer is not: \<open>int\<close> raises \<open>ValueError\<close> on a string
  of more than \<open>sys.get_int_max_str_digits()\<close> digits, 4300 by default (CPython 3.11 and
  later); leading zeros count.
\<close>

definition isdigit :: "string \<Rightarrow> bool" where
  "isdigit token = (token \<noteq> [] \<and> list_all is_digit token)"

definition digit_val :: "char \<Rightarrow> int" where
  "digit_val c = int (of_char c) - 48"

definition int_max_str_digits :: nat where
  "int_max_str_digits = 4300"

definition py_int :: "string \<Rightarrow> py_error + int" where
  "py_int token =
     (if length token > int_max_str_digits then Inl ValueError
      else Inr (foldl (\<lambda>acc c. 10 * acc + digit_val c) 0 token))"

text \<open>The values that occur in a normalized version: the tuple \<open>(0, int(token))\<close> or
  \<open>(1, token.lower())\<close>. A part is the pair of its tag and its payload.\<close>

datatype pyval = PInt int | PStr string

type_synonym part = "int \<times> pyval"

definition to_part :: "string \<Rightarrow> py_error + part" where
  "to_part token =
     (if isdigit token
      then (case py_int token of Inl e \<Rightarrow> Inl e | Inr n \<Rightarrow> Inr (0, PInt n))
      else Inr (1, PStr (lower token)))"

text \<open>The loop over the tokens: each part is appended to \<open>parts\<close>; the first token whose
  conversion raises ends the call.\<close>

fun normalize_loop :: "string list \<Rightarrow> part list \<Rightarrow> py_error + part list" where
  "normalize_loop [] parts = Inr parts"
| "normalize_loop (token # primary) parts =
     (case to_part token of
        Inl e \<Rightarrow> Inl e
      | Inr p \<Rightarrow> normalize_loop primary (parts @ [p]))"

definition normalize_version :: "string \<Rightarrow> py_error + part list" where
  "normalize_version v = normalize_loop (findall v) []"

section \<open>Python's comparison of tuples\<close>

text \<open>\<open>a > b\<close> on payloads: defined between two integers and between two strings, a
  \<open>TypeError\<close> between an integer and a string.\<close>

fun pyval_gt :: "pyval \<Rightarrow> pyval \<Rightarrow> py_error + bool" where
  "pyval_gt (PInt a) (PInt b) = Inr (a > b)"
| "pyval_gt (PStr a) (PStr b) = Inr (a > b)"
| "pyval_gt _ _ = Inl TypeError"

text \<open>\<open>a > b\<close> on tuples looks for the first index at which the two differ (by \<open>==\<close>, which
  never raises) and compares the items there; when there is none, the longer tuple is
  the greater.\<close>

definition part_gt :: "part \<Rightarrow> part \<Rightarrow> py_error + bool" where
  "part_gt p q =
     (if fst p \<noteq> fst q then Inr (fst p > fst q)
      else if snd p \<noteq> snd q then pyval_gt (snd p) (snd q)
      else Inr False)"

fun tuple_gt :: "part list \<Rightarrow> part list \<Rightarrow> py_error + bool" where
  "tuple_gt [] [] = Inr False"
| "tuple_gt [] (y # ys) = Inr False"
| "tuple_gt (x # xs) [] = Inr True"
| "tuple_gt (x # xs) (y # ys) = (if x \<noteq> y then part_gt x y else tuple_gt xs ys)"

text \<open>\<open>normalize_version(a) > normalize_version(b)\<close>, the test of \<open>main\<close>: the left operand
  is evaluated first, then the right one, then the two tuples are compared.\<close>

definition version_gt :: "string \<Rightarrow> string \<Rightarrow> py_error + bool" where
  "version_gt a b =
     (case normalize_version a of
        Inl e \<Rightarrow> Inl e
      | Inr pa \<Rightarrow>
          (case normalize_version b of
             Inl e \<Rightarrow> Inl e
           | Inr pb \<Rightarrow> tuple_gt pa pb))"

section \<open>Archives and find_addons\<close>

text \<open>
  What the standard library returns is an input of the model. An archive found by
  \<open>zips_dir.rglob("*.zip")\<close> is its path together with the result of
  \<open>zipfile.ZipFile(zip_path, "r")\<close>: an exception, or the members of the archive in the
  order of its directory, each with its name and with the result of opening and reading
  it. \<open>ET.fromstring\<close> is a parameter \<open>fromstring\<close> of the functions below. An exception
  raised inside the \<open>try\<close> block is \<open>zipfile.BadZipFile\<close> or another subclass of
  \<open>Exception\<close> with its message \<open>str(e)\<close>.
\<close>

datatype exn = BadZipFile | OtherException string

datatype element =
  Element (tag: string) (attrib: "(string \<times> string) list") (elem_text: "string option")
    (children: "element list")

record zipfile =
  members :: "(string \<times> (exn + string)) list"

text \<open>\<open>z.namelist()\<close> gives the names of all members in order. \<open>z.open(name)\<close> looks the
  name up in the table of the archive, in which a later member with the same name has
  replaced an earlier one; a name that no member has is a \<open>KeyError\<close>.\<close>

definition namelist :: "zipfile \<Rightarrow> string list" where
  "namelist z = map fst (members z)"

definition zread :: "zipfile \<Rightarrow> string \<Rightarrow> exn + string" where
  "zread z name =
     (case map_of (rev (members z)) name of
        None \<Rightarrow> Inl (OtherException ''KeyError'')
      | Some r \<Rightarrow> r)"

record archive =
  zip_path :: string
  zopen :: "exn + zipfile"

text \<open>The tuple \<open>(addon_id, addon_ver, elem, zip_path)\<close> that \<open>find_addons\<close> yields.\<close>

record entry =
  addon_id :: string
  addon_ver :: string
  elem :: element
  zpath :: string

text \<open>The loop over \<open>z.namelist()\<close> with its \<open>break\<close>.\<close>

fun find_addon_xml :: "string list \<Rightarrow> string option" where
  "find_addon_xml [] = None"
| "find_addon_xml (n # ns) =
     (if endswith (lower n) ''/addon.xml'' then Some n else find_addon_xml ns)"

text \<open>\<open>not x\<close> for a value that is \<open>None\<close> or a \<open>str\<close>.\<close>

definition falsy :: "string option \<Rightarrow> bool" where
  "falsy x = (x = None \<or> x = Some [])"

text \<open>What one pass of the loop of \<open>find_addons\<close> does: it prints one warning to standard
  error, or it yields one entry.\<close>

datatype event = Warn string | Yield entry

definition try_body :: "(string \<Rightarrow> exn + element) \<Rightarrow> archive \<Rightarrow> exn + event" where
  "try_body fromstring a =
     (case zopen a of
        Inl e \<Rightarrow> Inl e
      | Inr z \<Rightarrow>
          (let addon_xml_name = find_addon_xml (namelist z) in
           if falsy addon_xml_name
           then Inr (Warn (''[WARN] No addon.xml found in '' @ zip_path a))
           else
             (case zread z (the addon_xml_name) of
                Inl e \<Rightarrow> Inl e
              | Inr data \<Rightarrow>
                  (case fromstring data of
                     Inl e \<Rightarrow> Inl e
                   | Inr el \<Rightarrow>
                       (let aid = map_of (attrib el) ''id'';
                            aver = map_of (attrib el) ''version''
                        in if falsy aid \<or> falsy aver
                           then Inr (Warn (''[WARN] Missing id/version in '' @ zip_path a))
                           else Inr (Yield \<lparr>addon_id = the aid, addon_ver = the aver,
                                            elem = el, zpath = zip_path a\<rparr>))))))"

definition process_zip :: "(string \<Rightarrow> exn + element) \<Rightarrow> archive \<Rightarrow> event" where
  "process_zip fromstring a =
     (case try_body fromstring a of
        Inl BadZipFile \<Rightarrow> Warn (''[WARN] Bad zip file: '' @ zip_path a)
      | Inl (OtherException msg) \<Rightarrow> Warn (''[WARN] '' @ zip_path a @ '': '' @ msg)
      | Inr ev \<Rightarrow> ev)"

definition find_addons :: "(string \<Rightarrow> exn + element) \<Rightarrow> archive list \<Rightarrow> event list" where
  "find_addons fromstring archives = map (process_zip fromstring) archives"

section \<open>The selection of main\<close>

text \<open>The dictionary \<open>latest\<close> is an association list in insertion order; \<open>latest[key] = x\<close>
  is \<open>AList.update\<close>, which replaces the value of a key in place and appends a new key.\<close>

type_synonym latest = "(string \<times> entry) list"

definition update_latest :: "latest \<Rightarrow> entry \<Rightarrow> py_error + latest" where
  "update_latest latest r =
     (case map_of latest (addon_id r) of
        None \<Rightarrow> Inr (AList.update (addon_id r) r latest)
      | Some best \<Rightarrow>
          (case version_gt (addon_ver r) (addon_ver best) of
             Inl e \<Rightarrow> Inl e
           | Inr b \<Rightarrow> Inr (if b then AList.update (addon_id r) r latest else latest)))"

text \<open>The \<open>for\<close> loop of \<open>main\<close> over the generator: the warnings of \<open>find_addons\<close> reach
  standard error in between the updates of \<open>latest\<close>.\<close>

fun gather :: "event list \<Rightarrow> latest \<Rightarrow> string list \<Rightarrow> py_error + (latest \<times> string list)" where
  "gather [] latest err = Inr (latest, err)"
| "gather (Warn w # evs) latest err = gather evs latest (err @ [w])"
| "gather (Yield r # evs) latest err =
     (case update_latest latest r of
        Inl e \<Rightarrow> Inl e
      | Inr latest' \<Rightarrow> gather evs latest' err)"

text \<open>\<open>[latest[k] for k in sorted(latest.keys())]\<close>; \<open>sorted\<close> on strings is a stable sort
  by the order on code points.\<close>

fun lookup_all :: "latest \<Rightarrow> string list \<Rightarrow> py_error + entry list" where
  "lookup_all latest [] = Inr []"
| "lookup_all latest (k # ks) =
     (case map_of latest k of
        None \<Rightarrow> Inl KeyError
      | Some r \<Rightarrow> (case lookup_all latest ks of Inl e \<Rightarrow> Inl e | Inr rs \<Rightarrow> Inr (r # rs)))"

definition select_sorted :: "latest \<Rightarrow> py_error + entry list" where
  "select_sorted latest = lookup_all latest (sort (map fst latest))"

section \<open>build_addons_xml\<close>

text \<open>
  \<open>ET.tostring(addons_root, encoding="utf-8")\<close> and the digest \<open>hashlib.md5\<close> are parameters
  \<open>tostring\<close> and \<open>md5\<close>. The files are a map from paths to their bytes; a write puts
  the bytes there (errors of the operating system are not modelled).
\<close>

type_synonym files = "string \<rightharpoonup> string"

definition append_child :: "element \<Rightarrow> element \<Rightarrow> element" where
  "append_child root e = Element (tag root) (attrib root) (elem_text root) (children root @ [e])"

definition addons_root :: "entry list \<Rightarrow> element" where
  "addons_root entries =
     fold (\<lambda>r root. append_child root (elem r)) entries (Element ''addons'' [] None [])"

definition xml_declaration :: string where
  \<open>xml_declaration = ''<?xml version="1.0" encoding="UTF-8" standalone="yes"?>''\<close>

definition xml_header :: string where
  "xml_header = xml_declaration @ [CHR 0x0A]"

text \<open>\<open>out_dir / name\<close> for a resolved (absolute) \<open>out_dir\<close>.\<close>

definition path_join :: "string \<Rightarrow> string \<Rightarrow> string" where
  "path_join d name = (if d \<noteq> [] \<and> last d = CHR ''/'' then d @ name else d @ ''/'' @ name)"

definition open_wb :: "files \<Rightarrow> string \<Rightarrow> files" where
  "open_wb fs p = fs(p \<mapsto> [])"

definition fwrite :: "files \<Rightarrow> string \<Rightarrow> string \<Rightarrow> files" where
  "fwrite fs p bs = fs(p \<mapsto> (case fs p of None \<Rightarrow> bs | Some old \<Rightarrow> old @ bs))"

definition read_rb :: "files \<Rightarrow> string \<Rightarrow> py_error + string" where
  "read_rb fs p = (case fs p of None \<Rightarrow> Inl FileNotFoundError | Some bs \<Rightarrow> Inr bs)"

text \<open>\<open>hexdigest()\<close>: two lower-case hexadecimal digits for each byte of the digest.\<close>

definition hex_digit :: "nat \<Rightarrow> char" where
  "hex_digit n = (if n < 10 then char_of (48 + n) else char_of (87 + n))"

definition hexdigest :: "string \<Rightarrow> string" where
  "hexdigest d = concat (map (\<lambda>c. [hex_digit (of_char c div 16), hex_digit (of_char c mod 16)]) d)"

text \<open>\<open>write_text(s, encoding="utf-8")\<close>: a code point below 128 is one byte, one from 128
  to 255 is two.\<close>

definition encode_utf8 :: "string \<Rightarrow> string" where
  "encode_utf8 s =
     concat (map (\<lambda>c. if (of_char c :: nat) < 128 then [c]
                       else [char_of (192 + (of_char c :: nat) div 64),
                             char_of (128 + (of_char c :: nat) mod 64)]) s)"

definition build_addons_xml ::
  "(element \<Rightarrow> string) \<Rightarrow> (string \<Rightarrow> string) \<Rightarrow> entry list \<Rightarrow> string \<Rightarrow> files
     \<Rightarrow> py_error + (files \<times> string \<times> string)" where
  "build_addons_xml tostring md5 entries out_dir fs =
     (let xml_bytes = tostring (addons_root entries);
          addons_xml_path = path_join out_dir ''addons.xml'';
          fs1 = open_wb fs addons_xml_path;
          fs2 = fwrite fs1 addons_xml_path xml_header;
          fs3 = fwrite fs2 addons_xml_path xml_bytes
      in case read_rb fs3 addons_xml_path of
           Inl e \<Rightarrow> Inl e
         | Inr content \<Rightarrow>
             (let md5_hex = hexdigest (md5 content);
                  md5_path = path_join out_dir ''addons.xml.md5''
              in Inr (fs3(md5_path \<mapsto> encode_utf8 md5_hex), addons_xml_path, md5_path)))"

section \<open>main\<close>

text \<open>
  The world of a run: the files, the directories made, and the lines printed to standard
  output and to standard error (one string for each call of \<open>print\<close>). The inputs are the
  resolved \<open>zips_dir\<close> and \<open>out_dir\<close> and the archives in the order \<open>rglob\<close> gives them. A run
  ends with \<open>sys.exit(1)\<close> or returns; an exception that nothing catches ends the run
  where it is raised and is the \<open>Inl\<close>.
\<close>

record world =
  files :: files
  dirs :: "string set"
  stdout :: "string list"
  stderr :: "string list"

datatype status = Exit nat | Returned

definition path_name :: "string \<Rightarrow> string" where
  "path_name p = rev (takeWhile (\<lambda>c. c \<noteq> CHR ''/'') (rev p))"

definition summary_line :: "entry \<Rightarrow> string" where
  "summary_line r =
     '' - '' @ addon_id r @ '' @ '' @ addon_ver r @ ''  ('' @ path_name (zpath r) @ '')''"

definition main ::
  "(string \<Rightarrow> exn + element) \<Rightarrow> (element \<Rightarrow> string) \<Rightarrow> (string \<Rightarrow> string)
     \<Rightarrow> string \<Rightarrow> string \<Rightarrow> archive list \<Rightarrow> world \<Rightarrow> py_error + (world \<times> status)" where
  "main fromstring tostring md5 zips_dir out_dir archives w =
     (let w1 = w\<lparr>dirs := insert out_dir (dirs w)\<rparr> in
      case gather (find_addons fromstring archives) [] (stderr w1) of
        Inl e \<Rightarrow> Inl e
      | Inr (latest, err) \<Rightarrow>
          if latest = []
          then Inr (w1\<lparr>stderr := err @ [''No add-ons found under '' @ zips_dir]\<rparr>, Exit 1)
          else
            (case select_sorted latest of
               Inl e \<Rightarrow> Inl e
             | Inr selected \<Rightarrow>
                 (case build_addons_xml tostring md5 selected out_dir (files w1) of
                    Inl e \<Rightarrow> Inl e
                  | Inr (fs, addons_xml, md5_path) \<Rightarrow>
                      Inr (w1\<lparr>files := fs, stderr := err,
                              stdout := stdout w1
                                @ [''Generated:'', '' - '' @ addons_xml, '' - '' @ md5_path,
                                   CHR 0x0A # ''Included add-ons (latest only):'']
                                @ map summary_line selected\<rparr>, Returned))))"

section \<open>Auxiliary definitions for the proofs\<close>

text \<open>A part carries the tag of its payload: \<open>0\<close> with an integer, \<open>1\<close> with a string.\<close>

definition tagged :: "part \<Rightarrow> bool" where
  "tagged p = (case snd p of PInt n \<Rightarrow> fst p = 0 | PStr s \<Rightarrow> fst p = 1)"

text \<open>A key in a linear order (lexicographic products and lists) that the comparison of
  tagged parts agrees with.\<close>

definition part_key :: "part \<Rightarrow> int \<times> int \<times> string" where
  "part_key p = (case snd p of PInt n \<Rightarrow> (fst p, n, []) | PStr s \<Rightarrow> (fst p, 0, s))"

text \<open>A version is within the limit when none of its digit runs is longer than the
  conversion allows; \<open>parts_of\<close> is the tuple that \<open>normalize_version\<close> returns then.\<close>

definition within_limit :: "string \<Rightarrow> bool" where
  "within_limit v = list_all (\<lambda>t. length t \<le> int_max_str_digits) (filter isdigit (findall v))"

definition pure_part :: "string \<Rightarrow> part" where
  "pure_part token =
     (if isdigit token then (0, PInt (foldl (\<lambda>acc c. 10 * acc + digit_val c) 0 token))
      else (1, PStr (lower token)))"

definition parts_of :: "string \<Rightarrow> part list" where
  "parts_of v = map pure_part (findall v)"

definition version_key :: "string \<Rightarrow> (int \<times> int \<times> string) list" where
  "version_key v = map part_key (parts_of v)"

text \<open>Two strings that differ in the case of letters \<open>A\<close> to \<open>Z\<close>, \<open>a\<close> to \<open>z\<close> only.\<close>

definition ascii_lower_char :: "char \<Rightarrow> char" where
  "ascii_lower_char c =
     (if 65 \<le> (of_char c :: nat) \<and> (of_char c :: nat) \<le> 90
      then char_of ((of_char c :: nat) + 32) else c)"

definition same_up_to_case :: "string \<Rightarrow> string \<Rightarrow> bool" where
  "same_up_to_case v w = (map ascii_lower_char v = map ascii_lower_char w)"

subsection \<open>The version ordering in the words of the specification\<close>










subsection \<open>What the loops of find_addons and main leave behind\<close>

text \<open>The entries yielded and the warnings printed, in order.\<close>

fun yielded :: "event list \<Rightarrow> entry list" where
  "yielded [] = []"
| "yielded (Warn w # evs) = yielded evs"
| "yielded (Yield r # evs) = r # yielded evs"

fun warned :: "event list \<Rightarrow> string list" where
  "warned [] = []"
| "warned (Warn w # evs) = w # warned evs"
| "warned (Yield r # evs) = warned evs"

text \<open>
  \<open>first_max rs k b\<close>: the entry \<open>b\<close> stands at some position of \<open>rs\<close> and has the identifier
  \<open>k\<close>; its version compares strictly greater than the version of every entry for \<open>k\<close>
  before that position, and the version of every entry for \<open>k\<close> after that position
  compares not greater than it (both comparisons return).
\<close>

definition first_max :: "entry list \<Rightarrow> string \<Rightarrow> entry \<Rightarrow> bool" where
  "first_max rs k b =
     list_ex (\<lambda>i. rs ! i = b \<and> addon_id b = k
        \<and> list_all (\<lambda>x. addon_id x = k \<longrightarrow> version_gt (addon_ver b) (addon_ver x) = Inr True)
             (take i rs)
        \<and> list_all (\<lambda>x. addon_id x = k \<longrightarrow> version_gt (addon_ver x) (addon_ver b) = Inr False)
             (drop (Suc i) rs))
       [0..<length rs]"

definition selection_ok :: "entry list \<Rightarrow> latest \<Rightarrow> bool" where
  "selection_ok rs latest =
     (distinct (map fst latest) \<and>
      (\<forall>k. case map_of latest k of
              None \<Rightarrow> k \<notin> addon_id ` set rs
            | Some b \<Rightarrow> first_max rs k b))"

subsection \<open>Archives that fail\<close>

text \<open>
  The failures of the specification: the archive cannot be opened (a corrupt archive, or
  any other exception), it has no descriptor, reading or parsing the descriptor raises,
  or the \<open>id\<close> or the \<open>version\<close> attribute is missing (or empty).
\<close>

definition archive_fails :: "(string \<Rightarrow> exn + element) \<Rightarrow> archive \<Rightarrow> bool" where
  "archive_fails fromstring a =
     (case zopen a of
        Inl e \<Rightarrow> True
      | Inr z \<Rightarrow>
          (case find_addon_xml (namelist z) of
             None \<Rightarrow> True
           | Some n \<Rightarrow>
               (case zread z n of
                  Inl e \<Rightarrow> True
                | Inr data \<Rightarrow>
                    (case fromstring data of
                       Inl e \<Rightarrow> True
                     | Inr el \<Rightarrow> falsy (map_of (attrib el) ''id'')
                                  \<or> falsy (map_of (attrib el) ''version'')))))"

definition is_warning :: "string \<Rightarrow> bool" where
  "is_warning w = (take 7 w = ''[WARN] '')"

subsection \<open>Sample inputs for the examples\<close>

text \<open>A stand-in for \<open>ET.fromstring\<close> in the examples: the data \<open>id version\<close> is the
  descriptor \<open><addon id=... version=...>\<close>, empty data is a parse error.\<close>

definition sample_parse :: "string \<Rightarrow> exn + element" where
  "sample_parse d =
     (if d = [] then Inl (OtherException ''no element found'')
      else Inr (Element ''addon''
                  [(''id'', takeWhile (\<lambda>c. c \<noteq> CHR '' '') d),
                   (''version'', drop 1 (dropWhile (\<lambda>c. c \<noteq> CHR '' '') d))] None []))"

definition sample_zip :: "string \<Rightarrow> string list \<Rightarrow> string \<Rightarrow> archive" where
  "sample_zip p names d =
     \<lparr>zip_path = p, zopen = Inr \<lparr>members = map (\<lambda>n. (n, Inr d)) names\<rparr>\<rparr>"


text \<open>Stand-ins for \<open>ET.tostring\<close> and for the digest in the examples (the second is not
  MD5: the theorems hold for every serializer and every digest function), and a world
  with no files.\<close>

fun sample_tostring :: "element \<Rightarrow> string" where
  \<open>sample_tostring (Element t as txt cs) =
     ''<'' @ t @ concat (map (\<lambda>kv. '' '' @ fst kv @ ''="'' @ snd kv @ ''"'') as) @ ''>''
       @ concat (map sample_tostring cs) @ ''</'' @ t @ ''>''\<close>

definition sample_digest :: "string \<Rightarrow> string" where
  "sample_digest bs = take 16 (bs @ replicate 16 (CHR 0x00))"

definition empty_world :: world where
  "empty_world = \<lparr>files = Map.empty, dirs = {}, stdout = [], stderr = []\<rparr>"

text \<open>Entries as \<open>find_addons\<close> yields them.\<close>

definition tie_first :: entry where
  "tie_first = \<lparr>addon_id = ''plugin.x'', addon_ver = ''1.01'',
                  elem = Element ''addon'' [(''id'', ''plugin.x''), (''version'', ''1.01'')] None [],
                  zpath = ''/zips/first.zip''\<rparr>"

definition tie_second :: entry where
  "tie_second = \<lparr>addon_id = ''plugin.x'', addon_ver = ''1.1'',
                   elem = Element ''addon'' [(''id'', ''plugin.x''), (''version'', ''1.1'')] None [],
                   zpath = ''/zips/second.zip''\<rparr>"

definition entry_120 :: entry where
  "entry_120 = \<lparr>addon_id = ''plugin.y'', addon_ver = ''1.2.0'',
                  elem = Element ''addon'' [(''id'', ''plugin.y''), (''version'', ''1.2.0'')] None [],
                  zpath = ''/zips/plugin.y-1.2.0.zip''\<rparr>"

definition entry_130 :: entry where
  "entry_130 = \<lparr>addon_id = ''plugin.y'', addon_ver = ''1.3.0'',
                  elem = Element ''addon'' [(''id'', ''plugin.y''), (''version'', ''1.3.0'')] None [],
                  zpath = ''/zips/plugin.y-1.3.0.zip''\<rparr>"

text \<open>Two entries for one identifier whose version is one run of 4301 digits, and an
  archive with two members of one name.\<close>

definition long_version :: string where
  "long_version = replicate 4301 (CHR ''1'')"

definition long_first :: entry where
  "long_first = \<lparr>addon_id = ''plugin.z'', addon_ver = long_version,
                   elem = Element ''addon'' [(''id'', ''plugin.z''), (''version'', long_version)] None [],
                   zpath = ''/zips/z1.zip''\<rparr>"

definition long_second :: entry where
  "long_second = \<lparr>addon_id = ''plugin.z'', addon_ver = long_version,
                    elem = Element ''addon'' [(''id'', ''plugin.z''), (''version'', long_version)] None [],
                    zpath = ''/zips/z2.zip''\<rparr>"

definition dup_zip :: archive where
  "dup_zip = \<lparr>zip_path = ''/zips/dup.zip'',
                zopen = Inr \<lparr>members = [(''p/addon.xml'', Inr ''first.id 1.0''),
                                        (''p/addon.xml'', Inr ''second.id 2.0'')]\<rparr>\<rparr>"

text \<open>An archive with a descriptor at its root, one below \<open>Plugin\<close> and one below
  \<open>other\<close>.\<close>

definition mixed_members :: "(string \<times> (exn + string)) list" where
  "mixed_members = [(''addon.xml'', Inr ''root.id 9''),
                    (''Plugin/Addon.XML'', Inr ''plugin.x 1.0''),
                    (''other/addon.xml'', Inr ''other.id 3'')]"

definition mixed_zip :: archive where
  "mixed_zip = \<lparr>zip_path = ''/zips/mixed.zip'', zopen = Inr \<lparr>members = mixed_members\<rparr>\<rparr>"


section \<open>The comparison of normalized versions is a linear order\<close>

lemma tagged_pure_part: "tagged (pure_part t)"
  by (simp add: tagged_def pure_part_def)

lemma part_key_inj: "tagged p \<Longrightarrow> tagged q \<Longrightarrow> part_key p = part_key q \<longleftrightarrow> p = q"
  by (cases p; cases q) (auto simp: tagged_def part_key_def split: pyval.splits)

lemma part_gt_key:
  "tagged p \<Longrightarrow> tagged q \<Longrightarrow> p \<noteq> q \<Longrightarrow> part_gt p q = Inr (part_key q < part_key p)"
  by (cases p; cases q) (auto simp: tagged_def part_key_def part_gt_def split: pyval.splits)

lemma tuple_gt_key:
  "list_all tagged xs \<Longrightarrow> list_all tagged ys \<Longrightarrow>
     tuple_gt xs ys = Inr (map part_key ys < map part_key xs)"
proof (induction xs ys rule: tuple_gt.induct)
  case (4 x xs y ys)
  show ?case
  proof (cases "x = y")
    case True
    with 4 show ?thesis by simp
  next
    case False
    with 4 have "part_key x \<noteq> part_key y" by (simp add: part_key_inj)
    with 4 False show ?thesis by (auto simp: part_gt_key)
  qed
qed simp_all

lemma tagged_parts_of: "list_all tagged (parts_of v)"
  by (simp add: parts_of_def list_all_iff tagged_pure_part)

lemma to_part_limit:
  "to_part t = (if isdigit t \<and> length t > int_max_str_digits then Inl ValueError
                else Inr (pure_part t))"
  by (simp add: to_part_def py_int_def pure_part_def)

lemma normalize_loop_limit:
  "normalize_loop ts acc =
     (if list_all (\<lambda>t. length t \<le> int_max_str_digits) (filter isdigit ts)
      then Inr (acc @ map pure_part ts) else Inl ValueError)"
  by (induction ts arbitrary: acc) (auto simp: to_part_limit)

lemma normalize_version_limit:
  "normalize_version v = (if within_limit v then Inr (parts_of v) else Inl ValueError)"
  by (simp add: normalize_version_def normalize_loop_limit within_limit_def parts_of_def)

lemma version_gt_key:
  "version_gt a b =
     (if within_limit a \<and> within_limit b then Inr (version_key b < version_key a)
      else Inl ValueError)"
  by (simp add: version_gt_def normalize_version_limit version_key_def tuple_gt_key
      tagged_parts_of)

lemma version_key_eq: "version_key a = version_key b \<longleftrightarrow> parts_of a = parts_of b"
proof -
  have "inj_on part_key (set (parts_of a) \<union> set (parts_of b))"
    using tagged_parts_of [of a] tagged_parts_of [of b]
    by (auto simp: inj_on_def list_all_iff part_key_inj)
  then show ?thesis
    unfolding version_key_def by (metis map_inj_on)
qed

lemma findall_digits: "isdigit ds \<Longrightarrow> findall ds = [ds]"
proof -
  assume "isdigit ds"
  then obtain c cs where ds: "ds = c # cs" "is_digit c" "\<forall>x \<in> set cs. is_digit x"
    by (cases ds) (auto simp: isdigit_def list_all_iff)
  from ds(3) have tw: "takeWhile is_digit cs = cs" "dropWhile is_digit cs = []" by simp_all
  show ?thesis using ds(2) by (simp add: ds(1) tw)
qed

lemma within_limit_digits: "isdigit ds \<Longrightarrow> within_limit ds \<longleftrightarrow> length ds \<le> int_max_str_digits"
  by (simp add: within_limit_def findall_digits)

lemma isdigit_replicate: "0 < n \<Longrightarrow> is_digit c \<Longrightarrow> isdigit (replicate n c)"
  by (simp add: isdigit_def list_all_iff)

section \<open>The tokenizer and the ordering of the specification\<close>















section \<open>Letter case and leading zeros\<close>

lemma is_digit_ascii_lower: "is_digit (ascii_lower_char c) = is_digit c"
  by (auto simp: is_digit_def ascii_lower_char_def)

lemma is_alpha_ascii_lower: "is_alpha (ascii_lower_char c) = is_alpha c"
  by (auto simp: is_alpha_def ascii_lower_char_def)

lemma lower_char_ascii_lower: "lower_char (ascii_lower_char c) = lower_char c"
  by (auto simp: lower_char_def ascii_lower_char_def Let_def)

lemma ascii_lower_digit: "is_digit c \<Longrightarrow> ascii_lower_char c = c"
  by (auto simp: is_digit_def ascii_lower_char_def)

lemma findall_ascii_lower:
  "findall (map ascii_lower_char v) = map (map ascii_lower_char) (findall v)"
proof (induction v rule: findall.induct)
  case 1
  show ?case by simp
next
  case (2 c cs)
  have cd: "is_digit \<circ> ascii_lower_char = is_digit"
    and ca: "is_alpha \<circ> ascii_lower_char = is_alpha"
    by (simp_all add: fun_eq_iff is_digit_ascii_lower is_alpha_ascii_lower)
  show ?case
    using 2
    by (simp add: is_digit_ascii_lower is_alpha_ascii_lower takeWhile_map dropWhile_map cd ca)
qed

lemma isdigit_ascii_lower: "isdigit (map ascii_lower_char t) = isdigit t"
  by (simp add: isdigit_def list_all_iff is_digit_ascii_lower)

lemma pure_part_ascii_lower: "pure_part (map ascii_lower_char t) = pure_part t"
proof (cases "isdigit t")
  case True
  then have "map ascii_lower_char t = t"
    by (simp add: isdigit_def list_all_iff map_idI ascii_lower_digit)
  then show ?thesis by simp
next
  case False
  then show ?thesis
    by (simp add: pure_part_def isdigit_ascii_lower lower_def lower_char_ascii_lower)
qed

lemma parts_of_ascii_lower: "parts_of (map ascii_lower_char v) = parts_of v"
  by (simp add: parts_of_def findall_ascii_lower pure_part_ascii_lower comp_def)

lemma within_limit_ascii_lower: "within_limit (map ascii_lower_char v) = within_limit v"
proof -
  have "filter isdigit (map (map ascii_lower_char) ts)
          = map (map ascii_lower_char) (filter isdigit ts)" for ts
    by (induction ts) (simp_all add: isdigit_ascii_lower)
  then show ?thesis
    by (simp add: within_limit_def findall_ascii_lower list_all_iff)
qed

lemma normalize_ascii_lower:
  "normalize_version (map ascii_lower_char v) = normalize_version v"
  by (simp add: normalize_version_limit parts_of_ascii_lower within_limit_ascii_lower)

lemma normalize_same_up_to_case:
  "same_up_to_case v w \<Longrightarrow> normalize_version v = normalize_version w"
  unfolding same_up_to_case_def by (metis normalize_ascii_lower)

lemma findall_append_digit:
  "is_digit d \<Longrightarrow> pre = [] \<or> \<not> is_digit (last pre) \<Longrightarrow>
     findall (pre @ d # s) = findall pre @ findall (d # s)"
proof (induction pre rule: findall.induct)
  case 1
  show ?case by simp
next
  case (2 c cs)
  then have last: "\<not> is_digit (last (c # cs))" by simp
  show ?case
  proof (cases "is_digit c")
    case True
    with last have ne: "cs \<noteq> []" by auto
    with last have ex: "\<exists>x \<in> set cs. \<not> is_digit x" by (metis last.simps last_in_set)
    then obtain x where x: "x \<in> set cs" "\<not> is_digit x" by blast
    then have dne: "dropWhile is_digit cs \<noteq> []" by auto
    then have "last (dropWhile is_digit cs) = last cs"
      by (metis last_appendR takeWhile_dropWhile_id)
    with last ne have "\<not> is_digit (last (dropWhile is_digit cs))" by simp
    with "2.IH"(1) [OF True "2.prems"(1)] True x show ?thesis by simp
  next
    case False
    note nd = False
    show ?thesis
    proof (cases "is_alpha c")
      case True
      show ?thesis
      proof (cases "\<exists>x \<in> set cs. \<not> is_alpha x")
        case True
        then obtain x where x: "x \<in> set cs" "\<not> is_alpha x" by blast
        then have dne: "dropWhile is_alpha cs \<noteq> []" by auto
        then have "last (dropWhile is_alpha cs) = last cs"
          by (metis last_appendR takeWhile_dropWhile_id)
        moreover from x have "cs \<noteq> []" by auto
        ultimately have "\<not> is_digit (last (dropWhile is_alpha cs))" using last by simp
        with "2.IH"(2) [OF nd \<open>is_alpha c\<close> "2.prems"(1)] nd \<open>is_alpha c\<close> x show ?thesis by simp
      next
        case False
        then have all: "\<forall>x \<in> set cs. is_alpha x" by blast
        have "\<not> is_alpha d" using "2.prems"(1) by (auto simp: is_digit_def is_alpha_def)
        moreover from all have tw: "takeWhile is_alpha cs = cs" "dropWhile is_alpha cs = []"
          by simp_all
        ultimately show ?thesis
          using all nd True "2.prems"(1) by (simp add: takeWhile_append2 dropWhile_append2 tw)
      qed
    next
      case False
      have "cs = [] \<or> \<not> is_digit (last cs)" using last by (cases cs) auto
      with "2.IH"(3) [OF nd False "2.prems"(1)] nd False show ?thesis by simp
    qed
  qed
qed

lemma is_digit_zero: "is_digit (CHR ''0'')"
  by (simp add: is_digit_def)

lemma findall_digit_run:
  assumes "\<forall>x \<in> set zs. is_digit x" "is_digit d"
  shows "findall (zs @ d # s)
           = (zs @ d # takeWhile is_digit s) # findall (dropWhile is_digit s)"
proof (cases zs)
  case Nil
  with assms(2) show ?thesis by simp
next
  case (Cons z zs')
  with assms(1) have z: "is_digit z" and zs': "\<forall>x \<in> set zs'. is_digit x" by simp_all
  from zs' assms(2)
  have "takeWhile is_digit (zs' @ d # s) = zs' @ d # takeWhile is_digit s"
    and "dropWhile is_digit (zs' @ d # s) = dropWhile is_digit s"
    by (simp_all add: takeWhile_append2 dropWhile_append2)
  with z Cons show ?thesis by simp
qed

lemma findall_zeros:
  assumes "is_digit d" "pre = [] \<or> \<not> is_digit (last pre)"
  shows "findall (pre @ replicate k (CHR ''0'') @ d # s)
           = findall pre @ (replicate k (CHR ''0'') @ d # takeWhile is_digit s)
               # findall (dropWhile is_digit s)"
proof -
  have run: "findall (replicate k (CHR ''0'') @ d # s)
           = (replicate k (CHR ''0'') @ d # takeWhile is_digit s) # findall (dropWhile is_digit s)"
    using assms(1) by (intro findall_digit_run) (simp_all add: is_digit_zero)
  obtain d' s' where rest: "replicate k (CHR ''0'') @ d # s = d' # s'" "is_digit d'"
    using assms(1) by (cases k) (auto simp: is_digit_zero)
  have "findall (pre @ d' # s') = findall pre @ findall (d' # s')"
    using rest(2) assms(2) by (rule findall_append_digit)
  with rest(1) run show ?thesis by simp
qed

lemma pure_part_zeros:
  "isdigit ds \<Longrightarrow> pure_part (replicate k (CHR ''0'') @ ds) = pure_part ds"
proof (induction k)
  case 0
  show ?case by simp
next
  case (Suc k)
  then have "isdigit (replicate k (CHR ''0'') @ ds)"
    by (auto simp: isdigit_def list_all_iff is_digit_zero)
  then have "pure_part (CHR ''0'' # replicate k (CHR ''0'') @ ds)
               = pure_part (replicate k (CHR ''0'') @ ds)"
    by (simp add: pure_part_def isdigit_def is_digit_zero digit_val_def)
  with Suc show ?case by simp
qed

lemma normalize_leading_zeros:
  assumes "is_digit d" "pre = [] \<or> \<not> is_digit (last pre)"
  shows "normalize_version (pre @ replicate k (CHR ''0'') @ d # s) =
           (if k + Suc (length (takeWhile is_digit s)) \<le> int_max_str_digits
            then normalize_version (pre @ d # s) else Inl ValueError)"
proof -
  let ?run = "d # takeWhile is_digit s"
  have run: "isdigit ?run"
    using assms(1) by (auto simp: isdigit_def list_all_iff dest: set_takeWhileD)
  then have zrun: "isdigit (replicate k (CHR ''0'') @ ?run)"
    by (auto simp: isdigit_def list_all_iff is_digit_zero)
  have f0: "findall (pre @ d # s) = findall pre @ ?run # findall (dropWhile is_digit s)"
    using findall_zeros [OF assms, of 0 s] by simp
  have fk: "findall (pre @ replicate k (CHR ''0'') @ d # s)
              = findall pre @ (replicate k (CHR ''0'') @ ?run) # findall (dropWhile is_digit s)"
    using findall_zeros [OF assms, of k s] by simp
  have p: "parts_of (pre @ replicate k (CHR ''0'') @ d # s) = parts_of (pre @ d # s)"
    using run by (simp add: parts_of_def f0 fk pure_part_zeros)
  have w: "within_limit (pre @ replicate k (CHR ''0'') @ d # s)
             \<longleftrightarrow> within_limit (pre @ d # s)
                  \<and> k + Suc (length (takeWhile is_digit s)) \<le> int_max_str_digits"
    using run zrun by (auto simp: within_limit_def f0 fk)
  show ?thesis
    by (simp add: normalize_version_limit p w)
qed

lemma update_latest_tie:
  assumes "map_of latest (addon_id r) = Some best"
    and "normalize_version (addon_ver r) = Inr p"
    and "normalize_version (addon_ver best) = Inr p"
  shows "update_latest latest r = Inr latest"
proof -
  from assms(2,3) have w: "within_limit (addon_ver r)" "within_limit (addon_ver best)"
    and "parts_of (addon_ver r) = parts_of (addon_ver best)"
    by (auto simp: normalize_version_limit split: if_splits)
  then have "version_key (addon_ver r) = version_key (addon_ver best)"
    by (simp add: version_key_eq)
  with w show ?thesis
    using assms(1) by (simp add: update_latest_def version_gt_key)
qed

section \<open>The selection loop keeps the first greatest version\<close>

lemma version_gt_True:
  "version_gt a b = Inr True \<longleftrightarrow>
     within_limit a \<and> within_limit b \<and> version_key b < version_key a"
  by (auto simp: version_gt_key)

lemma version_gt_False:
  "version_gt a b = Inr False \<longleftrightarrow>
     within_limit a \<and> within_limit b \<and> \<not> version_key b < version_key a"
  by (auto simp: version_gt_key)

lemma version_gt_Inl: "version_gt a b = Inl e \<Longrightarrow> e = ValueError"
  by (simp add: version_gt_key split: if_splits)

lemma first_max_iff:
  "first_max rs k b \<longleftrightarrow>
     (\<exists>pre post. rs = pre @ b # post \<and> addon_id b = k
        \<and> (\<forall>x \<in> set pre. addon_id x = k \<longrightarrow> version_gt (addon_ver b) (addon_ver x) = Inr True)
        \<and> (\<forall>x \<in> set post. addon_id x = k \<longrightarrow> version_gt (addon_ver x) (addon_ver b) = Inr False))"
  (is "?L \<longleftrightarrow> ?R")
proof
  assume ?L
  then obtain i where i: "i < length rs" "rs ! i = b" "addon_id b = k"
    "\<forall>x \<in> set (take i rs). addon_id x = k \<longrightarrow> version_gt (addon_ver b) (addon_ver x) = Inr True"
    "\<forall>x \<in> set (drop (Suc i) rs). addon_id x = k \<longrightarrow> version_gt (addon_ver x) (addon_ver b) = Inr False"
    by (auto simp: first_max_def list_ex_iff list_all_iff)
  have "rs = take i rs @ b # drop (Suc i) rs"
    using i(1,2) id_take_nth_drop by blast
  with i show ?R by blast
next
  assume ?R
  then obtain pre post where p: "rs = pre @ b # post" "addon_id b = k"
    "\<forall>x \<in> set pre. addon_id x = k \<longrightarrow> version_gt (addon_ver b) (addon_ver x) = Inr True"
    "\<forall>x \<in> set post. addon_id x = k \<longrightarrow> version_gt (addon_ver x) (addon_ver b) = Inr False"
    by blast
  have "length pre < length rs" "rs ! length pre = b" "take (length pre) rs = pre"
    "drop (Suc (length pre)) rs = post"
    using p(1) by simp_all
  with p show ?L
    unfolding first_max_def list_ex_iff list_all_iff
    by (intro bexI [of _ "length pre"]) auto
qed

lemma first_max_snoc_other:
  "first_max rs k b \<Longrightarrow> addon_id r \<noteq> k \<Longrightarrow> first_max (rs @ [r]) k b"
  unfolding first_max_iff
  by (elim exE conjE) (rule_tac x = pre in exI, rule_tac x = "post @ [r]" in exI, auto)

lemma first_max_snoc_tie:
  "first_max rs k b \<Longrightarrow> version_gt (addon_ver r) (addon_ver b) = Inr False
     \<Longrightarrow> first_max (rs @ [r]) k b"
  unfolding first_max_iff
  by (elim exE conjE) (rule_tac x = pre in exI, rule_tac x = "post @ [r]" in exI, auto)

lemma first_max_snoc_new:
  "addon_id r \<notin> addon_id ` set rs \<Longrightarrow> first_max (rs @ [r]) (addon_id r) r"
  unfolding first_max_iff
  by (rule_tac x = rs in exI, rule_tac x = "[]" in exI) (auto simp: image_iff)

lemma first_max_snoc_greater:
  assumes "first_max rs k b" "addon_id r = k"
    "version_gt (addon_ver r) (addon_ver b) = Inr True"
  shows "first_max (rs @ [r]) k r"
proof -
  from assms(1) obtain pre post where p: "rs = pre @ b # post" "addon_id b = k"
    "\<forall>x \<in> set pre. addon_id x = k \<longrightarrow> version_gt (addon_ver b) (addon_ver x) = Inr True"
    "\<forall>x \<in> set post. addon_id x = k \<longrightarrow> version_gt (addon_ver x) (addon_ver b) = Inr False"
    unfolding first_max_iff by blast
  from assms(3) have rb: "within_limit (addon_ver r)"
    "version_key (addon_ver b) < version_key (addon_ver r)"
    by (simp_all add: version_gt_True)
  have "version_gt (addon_ver r) (addon_ver x) = Inr True"
    if "x \<in> set rs" "addon_id x = k" for x
  proof -
    from that p(1) consider "x \<in> set pre" | "x = b" | "x \<in> set post" by auto
    then show ?thesis
    proof cases
      case 1
      with p(3) that(2) have "version_gt (addon_ver b) (addon_ver x) = Inr True" by blast
      then have "within_limit (addon_ver x)"
        "version_key (addon_ver x) < version_key (addon_ver b)"
        by (simp_all add: version_gt_True)
      with rb show ?thesis
        unfolding version_gt_True by (meson less_trans)
    next
      case 2
      with assms(3) show ?thesis by simp
    next
      case 3
      with p(4) that(2) have "version_gt (addon_ver x) (addon_ver b) = Inr False" by blast
      then have "within_limit (addon_ver x)"
        "version_key (addon_ver x) \<le> version_key (addon_ver b)"
        by (simp_all add: version_gt_False not_less)
      with rb show ?thesis
        unfolding version_gt_True by (meson le_less_trans)
    qed
  qed
  then show ?thesis
    unfolding first_max_iff using assms(2)
    by (intro exI [of _ rs] exI [of _ "[]"]) auto
qed

lemma update_latest_cases:
  "update_latest latest r =
     (case map_of latest (addon_id r) of
        None \<Rightarrow> Inr (AList.update (addon_id r) r latest)
      | Some best \<Rightarrow>
          if within_limit (addon_ver r) \<and> within_limit (addon_ver best)
          then Inr (if version_key (addon_ver best) < version_key (addon_ver r)
                    then AList.update (addon_id r) r latest else latest)
          else Inl ValueError)"
  by (simp add: update_latest_def version_gt_key split: option.splits)

lemma update_latest_ok:
  assumes "selection_ok rs latest" "update_latest latest r = Inr latest'"
  shows "selection_ok (rs @ [r]) latest'"
proof -
  from assms(1) have dist: "distinct (map fst latest)"
    and inv: "\<And>k. case map_of latest k of None \<Rightarrow> k \<notin> addon_id ` set rs
                     | Some b \<Rightarrow> first_max rs k b"
    by (simp_all add: selection_ok_def)
  have none: "k \<notin> addon_id ` set rs" if "map_of latest k = None" for k
    using inv [of k] that by simp
  have some: "first_max rs k b" if "map_of latest k = Some b" for k b
    using inv [of k] that by simp
  have keep: "selection_ok (rs @ [r]) latest"
    if "map_of latest (addon_id r) = Some best"
      "version_gt (addon_ver r) (addon_ver best) = Inr False" for best
    unfolding selection_ok_def
  proof (intro conjI allI)
    show "distinct (map fst latest)" by (rule dist)
    fix k
    show "case map_of latest k of None \<Rightarrow> k \<notin> addon_id ` set (rs @ [r])
          | Some b \<Rightarrow> first_max (rs @ [r]) k b"
    proof (cases "map_of latest k")
      case None
      with that(1) have "k \<noteq> addon_id r" by auto
      with None none [of k] show ?thesis by auto
    next
      case (Some b)
      show ?thesis
      proof (cases "k = addon_id r")
        case True
        with Some that have "b = best" by simp
        with Some some [of k b] that(2) show ?thesis by (simp add: first_max_snoc_tie)
      next
        case False
        with Some some [of k b] show ?thesis by (simp add: first_max_snoc_other)
      qed
    qed
  qed
  have repl: "selection_ok (rs @ [r]) (AList.update (addon_id r) r latest)"
    if "map_of latest (addon_id r) = None
        \<or> (\<exists>best. map_of latest (addon_id r) = Some best
              \<and> version_gt (addon_ver r) (addon_ver best) = Inr True)"
    unfolding selection_ok_def
  proof (intro conjI allI)
    show "distinct (map fst (AList.update (addon_id r) r latest))"
      using dist by (rule distinct_update)
    fix k
    show "case map_of (AList.update (addon_id r) r latest) k of
            None \<Rightarrow> k \<notin> addon_id ` set (rs @ [r])
          | Some b \<Rightarrow> first_max (rs @ [r]) k b"
    proof (cases "k = addon_id r")
      case True
      have "first_max (rs @ [r]) (addon_id r) r"
        using that none [of "addon_id r"] some [of "addon_id r"]
        by (auto simp: first_max_snoc_new first_max_snoc_greater)
      with True show ?thesis by (simp add: update_conv')
    next
      case False
      then show ?thesis
        using none [of k] some [of k]
        by (cases "map_of latest k") (auto simp: update_conv' first_max_snoc_other)
    qed
  qed
  show ?thesis
  proof (cases "map_of latest (addon_id r)")
    case None
    with repl assms(2) show ?thesis by (simp add: update_latest_def)
  next
    case (Some best)
    from assms(2) Some obtain g where g: "version_gt (addon_ver r) (addon_ver best) = Inr g"
      "latest' = (if g then AList.update (addon_id r) r latest else latest)"
      by (cases "version_gt (addon_ver r) (addon_ver best)") (auto simp: update_latest_def)
    show ?thesis
    proof (cases g)
      case True
      with g Some repl show ?thesis by simp
    next
      case False
      with g Some keep [of best] show ?thesis by simp
    qed
  qed
qed

lemma gather_ok:
  "selection_ok rs latest \<Longrightarrow> gather evs latest err = Inr (latest', err') \<Longrightarrow>
     selection_ok (rs @ yielded evs) latest' \<and> err' = err @ warned evs"
proof (induction evs arbitrary: rs latest err)
  case Nil
  then show ?case by simp
next
  case (Cons ev evs)
  show ?case
  proof (cases ev)
    case (Warn w)
    with Cons.IH [OF Cons.prems(1), of "err @ [w]"] Cons.prems(2) show ?thesis by simp
  next
    case (Yield r)
    with Cons.prems(2) obtain l1 where l1: "update_latest latest r = Inr l1"
      "gather evs l1 err = Inr (latest', err')"
      by (cases "update_latest latest r") simp_all
    from update_latest_ok [OF Cons.prems(1) l1(1)] have "selection_ok (rs @ [r]) l1" .
    from Cons.IH [OF this l1(2)] Yield show ?thesis by simp
  qed
qed

lemma selection_ok_empty: "selection_ok [] []"
  by (simp add: selection_ok_def)

lemma selection_ok_Some:
  assumes "selection_ok rs latest" "map_of latest k = Some b"
  shows "addon_id b = k \<and> b \<in> set rs"
proof -
  from assms have "first_max rs k b"
    by (auto simp: selection_ok_def split: option.splits dest: spec [of _ k])
  then show ?thesis by (auto simp: first_max_iff)
qed

lemma update_latest_returns:
  assumes "within_limit (addon_ver r)"
    and "\<And>k b. map_of latest k = Some b \<Longrightarrow> within_limit (addon_ver b)"
  shows "\<exists>latest'. update_latest latest r = Inr latest'"
  using assms by (cases "map_of latest (addon_id r)") (auto simp: update_latest_cases)

lemma gather_returns:
  assumes "selection_ok rs latest"
    and "\<forall>r \<in> set rs \<union> set (yielded evs). within_limit (addon_ver r)"
  shows "\<exists>latest'. gather evs latest err = Inr (latest', err @ warned evs)"
  using assms
proof (induction evs arbitrary: rs latest err)
  case Nil
  then show ?case by simp
next
  case (Cons ev evs)
  show ?case
  proof (cases ev)
    case (Warn w)
    with Cons.IH [OF Cons.prems(1), of "err @ [w]"] Cons.prems(2) show ?thesis by simp
  next
    case (Yield r)
    have "within_limit (addon_ver b)" if "map_of latest k = Some b" for k b
      using selection_ok_Some [OF Cons.prems(1) that] Cons.prems(2) by simp
    moreover have "within_limit (addon_ver r)" using Cons.prems(2) Yield by simp
    ultimately obtain l1 where l1: "update_latest latest r = Inr l1"
      using update_latest_returns by blast
    from update_latest_ok [OF Cons.prems(1) l1] have ok: "selection_ok (rs @ [r]) l1" .
    have "\<forall>x \<in> set (rs @ [r]) \<union> set (yielded evs). within_limit (addon_ver x)"
      using Cons.prems(2) Yield by simp
    from Cons.IH [OF ok this, of err] l1 Yield show ?thesis by simp
  qed
qed

lemma gather_Inl: "gather evs latest err = Inl e \<Longrightarrow> e = ValueError"
proof (induction evs latest err rule: gather.induct)
  case (3 r evs latest err)
  show ?case
  proof (cases "update_latest latest r")
    case (Inl e')
    with 3(2) have "e' = e" by simp
    with Inl show ?thesis
      by (auto simp: update_latest_cases split: option.splits if_splits)
  next
    case (Inr l1)
    with 3 show ?thesis by simp
  qed
qed simp_all

section \<open>The search for the descriptor\<close>

lemma find_addon_xml_None:
  "find_addon_xml names = None \<longleftrightarrow> (\<forall>m \<in> set names. \<not> endswith (lower m) ''/addon.xml'')"
  by (induction names) auto

lemma find_addon_xml_Some:
  "find_addon_xml names = Some n \<longleftrightarrow>
     (\<exists>pre post. names = pre @ n # post \<and> endswith (lower n) ''/addon.xml''
        \<and> (\<forall>m \<in> set pre. \<not> endswith (lower m) ''/addon.xml''))"
proof (induction names)
  case Nil
  show ?case by simp
next
  case (Cons a names)
  show ?case
  proof (cases "endswith (lower a) ''/addon.xml''")
    case True
    have "(\<exists>pre post. a # names = pre @ n # post \<and> endswith (lower n) ''/addon.xml''
        \<and> (\<forall>m \<in> set pre. \<not> endswith (lower m) ''/addon.xml'')) \<longleftrightarrow> a = n"
    proof
      assume "\<exists>pre post. a # names = pre @ n # post \<and> endswith (lower n) ''/addon.xml''
        \<and> (\<forall>m \<in> set pre. \<not> endswith (lower m) ''/addon.xml'')"
      then obtain pre post where p: "a # names = pre @ n # post"
        "\<forall>m \<in> set pre. \<not> endswith (lower m) ''/addon.xml''" by blast
      with True show "a = n" by (cases pre) auto
    next
      assume "a = n"
      with True show "\<exists>pre post. a # names = pre @ n # post \<and> endswith (lower n) ''/addon.xml''
        \<and> (\<forall>m \<in> set pre. \<not> endswith (lower m) ''/addon.xml'')"
        by (intro exI [of _ "[]"] exI [of _ names]) simp
    qed
    with True show ?thesis by simp
  next
    case False
    have "(\<exists>pre post. a # names = pre @ n # post \<and> endswith (lower n) ''/addon.xml''
        \<and> (\<forall>m \<in> set pre. \<not> endswith (lower m) ''/addon.xml''))
      \<longleftrightarrow> (\<exists>pre post. names = pre @ n # post \<and> endswith (lower n) ''/addon.xml''
        \<and> (\<forall>m \<in> set pre. \<not> endswith (lower m) ''/addon.xml''))" (is "?A \<longleftrightarrow> ?B")
    proof
      assume ?A
      then obtain pre post where p: "a # names = pre @ n # post"
        "endswith (lower n) ''/addon.xml''"
        "\<forall>m \<in> set pre. \<not> endswith (lower m) ''/addon.xml''" by blast
      with False obtain pre' where "pre = a # pre'" by (cases pre) auto
      with p show ?B by (intro exI [of _ pre'] exI [of _ post]) simp
    next
      assume ?B
      then obtain pre post where p: "names = pre @ n # post"
        "endswith (lower n) ''/addon.xml''"
        "\<forall>m \<in> set pre. \<not> endswith (lower m) ''/addon.xml''" by blast
      with False show ?A by (intro exI [of _ "a # pre"] exI [of _ post]) simp
    qed
    with False Cons show ?thesis by simp
  qed
qed

lemma find_addon_xml_nonempty: "find_addon_xml names = Some n \<Longrightarrow> n \<noteq> []"
  by (induction names) (auto simp: endswith_def lower_def split: if_splits)

lemma process_zip_no_descriptor:
  "zopen a = Inr z \<Longrightarrow> find_addon_xml (namelist z) = None \<Longrightarrow>
     process_zip fromstring a = Warn (''[WARN] No addon.xml found in '' @ zip_path a)"
  by (simp add: process_zip_def try_body_def falsy_def)

lemma find_addon_xml_append:
  "find_addon_xml (xs @ ys) =
     (case find_addon_xml xs of Some m \<Rightarrow> Some m | None \<Rightarrow> find_addon_xml ys)"
  by (induction xs) auto

lemma find_addon_xml_matches:
  "find_addon_xml names = Some n \<Longrightarrow> endswith (lower n) ''/addon.xml''"
  by (induction names) (auto split: if_splits)

lemma zread_last:
  assumes "members z = before @ (n, r) # after" "n \<notin> fst ` set after"
  shows "zread z n = r"
proof -
  from assms(2) have "map_of (rev after) n = None"
    by (simp add: map_of_eq_None_iff)
  then show ?thesis
    by (simp add: zread_def assms(1) map_add_def)
qed

lemma members_last:
  assumes "n \<in> set (namelist z)"
  shows "\<exists>before r after. members z = before @ (n, r) # after \<and> n \<notin> fst ` set after"
proof -
  from assms have "\<exists>m \<in> set (members z). fst m = n" by (auto simp: namelist_def)
  then obtain before m after where m: "members z = before @ m # after" "fst m = n"
    "\<forall>x \<in> set after. fst x \<noteq> n"
    using split_list_last_prop [of "members z" "\<lambda>m. fst m = n"] by blast
  then have "members z = before @ (n, snd m) # after" "n \<notin> fst ` set after" by auto
  then show ?thesis by blast
qed

lemma find_addon_xml_in_set: "find_addon_xml names = Some n \<Longrightarrow> n \<in> set names"
  by (induction names) (auto split: if_splits)

lemma try_body_found:
  assumes "zopen a = Inr z" "find_addon_xml (namelist z) = Some n"
  shows "try_body fromstring a =
     (case zread z n of
        Inl e \<Rightarrow> Inl e
      | Inr data \<Rightarrow>
          (case fromstring data of
             Inl e \<Rightarrow> Inl e
           | Inr el \<Rightarrow>
               if falsy (map_of (attrib el) ''id'') \<or> falsy (map_of (attrib el) ''version'')
               then Inr (Warn (''[WARN] Missing id/version in '' @ zip_path a))
               else Inr (Yield \<lparr>addon_id = the (map_of (attrib el) ''id''),
                                addon_ver = the (map_of (attrib el) ''version''),
                                elem = el, zpath = zip_path a\<rparr>)))"
proof -
  from assms(2) have "\<not> falsy (find_addon_xml (namelist z))"
    by (simp add: falsy_def find_addon_xml_nonempty)
  with assms show ?thesis
    by (simp add: try_body_def Let_def cong: sum.case_cong)
qed

lemma process_zip_single:
  assumes "zopen a = Inr z" "find_addon_xml (namelist z) = Some n"
  shows "process_zip fromstring (a\<lparr>zopen := Inr \<lparr>members = [(n, zread z n)]\<rparr>\<rparr>)
           = process_zip fromstring a"
proof -
  let ?z = "\<lparr>members = [(n, zread z n)]\<rparr>"
  let ?a = "a\<lparr>zopen := Inr ?z\<rparr>"
  have m: "endswith (lower n) ''/addon.xml''"
    using assms(2) by (rule find_addon_xml_matches)
  have o: "zopen ?a = Inr ?z" by simp
  have f: "find_addon_xml (namelist ?z) = Some n"
    using m by (simp add: namelist_def)
  have r: "zread ?z n = zread z n" by (simp add: zread_def)
  have p: "zip_path ?a = zip_path a" by simp
  have "try_body fromstring ?a = try_body fromstring a"
    unfolding try_body_found [OF o f] try_body_found [OF assms] r p ..
  then show ?thesis
    unfolding process_zip_def p by simp
qed

section \<open>Archives that fail are skipped\<close>






lemma process_zip_fails:
  assumes "archive_fails fromstring a"
  shows "\<exists>w. process_zip fromstring a = Warn w \<and> is_warning w"
proof (cases "zopen a")
  case (Inl e)
  then show ?thesis
    by (cases e) (simp_all add: process_zip_def try_body_def is_warning_def)
next
  case (Inr z)
  note z = Inr
  show ?thesis
  proof (cases "find_addon_xml (namelist z)")
    case None
    with z show ?thesis
      by (simp add: process_zip_def try_body_def falsy_def is_warning_def)
  next
    case (Some n)
    then have nf: "\<not> falsy (find_addon_xml (namelist z))"
      by (simp add: falsy_def find_addon_xml_nonempty)
    show ?thesis
    proof (cases "zread z n")
      case (Inl e)
      with z Some nf show ?thesis
        by (cases e) (simp_all add: process_zip_def try_body_def is_warning_def)
    next
      case (Inr data)
      note d = Inr
      show ?thesis
      proof (cases "fromstring data")
        case (Inl e)
        with z Some nf d show ?thesis
          by (cases e) (simp_all add: process_zip_def try_body_def is_warning_def)
      next
        case (Inr el)
        with assms z Some d
        have "falsy (map_of (attrib el) ''id'') \<or> falsy (map_of (attrib el) ''version'')"
          by (simp add: archive_fails_def)
        with z Some nf d Inr show ?thesis
          by (simp add: process_zip_def try_body_def is_warning_def)
      qed
    qed
  qed
qed

lemma process_zip_usable:
  assumes "\<not> archive_fails fromstring a"
  shows "\<exists>r. process_zip fromstring a = Yield r \<and> zpath r = zip_path a
           \<and> map_of (attrib (elem r)) ''id'' = Some (addon_id r)
           \<and> map_of (attrib (elem r)) ''version'' = Some (addon_ver r)
           \<and> addon_id r \<noteq> [] \<and> addon_ver r \<noteq> []"
proof -
  from assms obtain z where z: "zopen a = Inr z"
    by (cases "zopen a") (simp_all add: archive_fails_def)
  from assms z obtain n where n: "find_addon_xml (namelist z) = Some n"
    by (cases "find_addon_xml (namelist z)") (simp_all add: archive_fails_def)
  then have nf: "\<not> falsy (find_addon_xml (namelist z))"
    by (simp add: falsy_def find_addon_xml_nonempty)
  from assms z n obtain data where d: "zread z n = Inr data"
    by (cases "zread z n") (simp_all add: archive_fails_def)
  from assms z n d obtain el where el: "fromstring data = Inr el"
    by (cases "fromstring data") (simp_all add: archive_fails_def)
  from assms z n d el
  have ok: "\<not> falsy (map_of (attrib el) ''id'')" "\<not> falsy (map_of (attrib el) ''version'')"
    by (simp_all add: archive_fails_def)
  then obtain i v where iv: "map_of (attrib el) ''id'' = Some i" "i \<noteq> []"
    "map_of (attrib el) ''version'' = Some v" "v \<noteq> []"
    by (auto simp: falsy_def)
  from z n nf d el iv show ?thesis
    by (simp add: process_zip_def try_body_def falsy_def)
qed

lemma find_addons_append:
  "find_addons fromstring (xs @ ys) = find_addons fromstring xs @ find_addons fromstring ys"
  by (simp add: find_addons_def)

section \<open>What main writes\<close>

lemma children_fold_append:
  "children (fold (\<lambda>r root. append_child root (elem r)) entries root)
     = children root @ map elem entries"
  by (induction entries arbitrary: root) (simp_all add: append_child_def)

lemma tag_fold_append:
  "tag (fold (\<lambda>r root. append_child root (elem r)) entries root) = tag root"
  by (induction entries arbitrary: root) (simp_all add: append_child_def)

lemma addons_root_children: "children (addons_root entries) = map elem entries"
  by (simp add: addons_root_def children_fold_append)

lemma addons_root_tag: "tag (addons_root entries) = ''addons''"
  by (simp add: addons_root_def tag_fold_append)

lemma path_join_distinct:
  "path_join d ''addons.xml'' \<noteq> path_join d ''addons.xml.md5''"
  by (simp add: path_join_def)

lemma hex_digit_ascii: "n < 16 \<Longrightarrow> (of_char (hex_digit n) :: nat) < 128"
  by (simp add: hex_digit_def)

lemma hexdigest_ascii: "c \<in> set (hexdigest d) \<Longrightarrow> (of_char c :: nat) < 128"
proof -
  assume "c \<in> set (hexdigest d)"
  then obtain b where "c = hex_digit (of_char b div 16) \<or> c = hex_digit (of_char b mod 16)"
    by (auto simp: hexdigest_def)
  moreover have "(of_char b :: nat) div 16 < 16"
  proof -
    have "(of_char b :: nat) mod 256 < 256" by simp
    then have "(of_char b :: nat) < 256" by (simp only: of_char_mod_256)
    then show ?thesis by arith
  qed
  ultimately show ?thesis
    by (auto simp: hex_digit_ascii)
qed

lemma encode_utf8_ascii: "\<forall>c \<in> set s. (of_char c :: nat) < 128 \<Longrightarrow> encode_utf8 s = s"
  by (induction s) (simp_all add: encode_utf8_def)

lemma encode_utf8_hexdigest: "encode_utf8 (hexdigest d) = hexdigest d"
  by (rule encode_utf8_ascii) (simp add: hexdigest_ascii)

lemma length_hexdigest: "length (hexdigest d) = 2 * length d"
  by (induction d) (simp_all add: hexdigest_def)

lemma build_addons_xml_result:
  "build_addons_xml tostring md5 entries out_dir fs =
     Inr (fs(path_join out_dir ''addons.xml'' \<mapsto> xml_header @ tostring (addons_root entries),
             path_join out_dir ''addons.xml.md5''
               \<mapsto> hexdigest (md5 (xml_header @ tostring (addons_root entries)))),
          path_join out_dir ''addons.xml'', path_join out_dir ''addons.xml.md5'')"
  by (simp add: build_addons_xml_def Let_def open_wb_def fwrite_def read_rb_def
      encode_utf8_hexdigest)

lemma lookup_all_ok:
  "set ks \<subseteq> fst ` set latest \<Longrightarrow>
     \<exists>rs. lookup_all latest ks = Inr rs \<and> list_all2 (\<lambda>k r. map_of latest k = Some r) ks rs"
proof (induction ks)
  case Nil
  show ?case by simp
next
  case (Cons k ks)
  then obtain rs where rs: "lookup_all latest ks = Inr rs"
    "list_all2 (\<lambda>k r. map_of latest k = Some r) ks rs" by auto
  from Cons.prems have "k \<in> dom (map_of latest)"
    by (simp add: dom_map_of_conv_image_fst)
  then obtain r where "map_of latest k = Some r" by blast
  with rs show ?case by simp
qed

lemma selection_ok_keys:
  assumes "selection_ok rs latest"
  shows "fst ` set latest = addon_id ` set rs"
proof -
  have inv: "case map_of latest k of None \<Rightarrow> k \<notin> addon_id ` set rs
             | Some b \<Rightarrow> first_max rs k b" for k
    using assms by (simp add: selection_ok_def)
  have "k \<in> dom (map_of latest) \<longleftrightarrow> k \<in> addon_id ` set rs" for k
  proof (cases "map_of latest k")
    case None
    with inv [of k] show ?thesis by (simp add: domIff)
  next
    case (Some b)
    with assms have "addon_id b = k \<and> b \<in> set rs" by (rule selection_ok_Some)
    with Some show ?thesis by (auto simp: domIff)
  qed
  then show ?thesis by (auto simp: dom_map_of_conv_image_fst)
qed

lemma selection_ok_empty_iff: "selection_ok rs latest \<Longrightarrow> latest = [] \<longleftrightarrow> rs = []"
  using selection_ok_keys [of rs latest] by (cases latest; cases rs) auto

lemma select_sorted_ok:
  assumes "selection_ok rs latest"
  shows "\<exists>sel. select_sorted latest = Inr sel
           \<and> map addon_id sel = sort (map fst latest)
           \<and> sorted_wrt (<) (map addon_id sel)
           \<and> set sel \<subseteq> set rs
           \<and> addon_id ` set sel = addon_id ` set rs
           \<and> list_all2 (\<lambda>k r. map_of latest k = Some r) (sort (map fst latest)) sel"
proof -
  let ?ks = "sort (map fst latest)"
  have "set ?ks \<subseteq> fst ` set latest" by simp
  then obtain sel where sel: "lookup_all latest ?ks = Inr sel"
    "list_all2 (\<lambda>k r. map_of latest k = Some r) ?ks sel"
    using lookup_all_ok by blast
  from sel(2) have "list_all2 (\<lambda>k r. addon_id r = k \<and> r \<in> set rs) ?ks sel"
    by (rule list_all2_mono) (use assms selection_ok_Some in blast)
  then have ids: "map addon_id sel = ?ks" and sub: "set sel \<subseteq> set rs"
    by (induction rule: list_all2_induct) auto
  from assms have "distinct (map fst latest)" by (simp add: selection_ok_def)
  then have "sorted_wrt (<) ?ks" by (simp add: strict_sorted_iff)
  moreover have "addon_id ` set sel = addon_id ` set rs"
    using ids selection_ok_keys [OF assms] by (metis set_map set_sort)
  ultimately show ?thesis
    using sel ids sub by (simp add: select_sorted_def)
qed



lemma main_raises:
  "gather (find_addons fromstring archives) [] (stderr w) = Inl e \<Longrightarrow>
     main fromstring tostring md5 zips_dir out_dir archives w = Inl e"
  by (simp add: main_def)

lemma main_of_gather:
  assumes "gather (find_addons fromstring archives) [] (stderr w) = Inr (latest, err)"
    and "latest \<noteq> []"
  shows "\<exists>sel w'.
           selection_ok (yielded (find_addons fromstring archives)) latest
           \<and> err = stderr w @ warned (find_addons fromstring archives)
           \<and> select_sorted latest = Inr sel
           \<and> main fromstring tostring md5 zips_dir out_dir archives w = Inr (w', Returned)
           \<and> files w' = (files w)
                (path_join out_dir ''addons.xml'' \<mapsto> xml_header @ tostring (addons_root sel),
                 path_join out_dir ''addons.xml.md5''
                   \<mapsto> hexdigest (md5 (xml_header @ tostring (addons_root sel))))
           \<and> stderr w' = err
           \<and> stdout w' = stdout w
                @ [''Generated:'', '' - '' @ path_join out_dir ''addons.xml'',
                   '' - '' @ path_join out_dir ''addons.xml.md5'',
                   CHR 0x0A # ''Included add-ons (latest only):'']
                @ map summary_line sel"
proof -
  from gather_ok [OF selection_ok_empty assms(1)]
  have ok: "selection_ok (yielded (find_addons fromstring archives)) latest"
    and err: "err = stderr w @ warned (find_addons fromstring archives)"
    by simp_all
  from ok obtain sel where sel: "select_sorted latest = Inr sel"
    using select_sorted_ok by blast
  from assms ok err sel show ?thesis
    by (simp add: main_def build_addons_xml_result)
qed

lemma main_nonempty:
  assumes "yielded (find_addons fromstring archives) \<noteq> []"
    and "list_all (\<lambda>r. within_limit (addon_ver r)) (yielded (find_addons fromstring archives))"
  shows "\<exists>latest sel w'.
           gather (find_addons fromstring archives) [] (stderr w)
             = Inr (latest, stderr w @ warned (find_addons fromstring archives))
           \<and> selection_ok (yielded (find_addons fromstring archives)) latest
           \<and> latest \<noteq> []
           \<and> select_sorted latest = Inr sel
           \<and> main fromstring tostring md5 zips_dir out_dir archives w = Inr (w', Returned)
           \<and> files w' = (files w)
                (path_join out_dir ''addons.xml'' \<mapsto> xml_header @ tostring (addons_root sel),
                 path_join out_dir ''addons.xml.md5''
                   \<mapsto> hexdigest (md5 (xml_header @ tostring (addons_root sel))))
           \<and> stderr w' = stderr w @ warned (find_addons fromstring archives)"
proof -
  from assms(2) have "\<forall>r \<in> set [] \<union> set (yielded (find_addons fromstring archives)).
      within_limit (addon_ver r)"
    by (simp add: list_all_iff)
  from gather_returns [OF selection_ok_empty this, of "stderr w"]
  obtain latest where l:
    "gather (find_addons fromstring archives) [] (stderr w)
       = Inr (latest, stderr w @ warned (find_addons fromstring archives))"
    by auto
  from gather_ok [OF selection_ok_empty l]
  have ok: "selection_ok (yielded (find_addons fromstring archives)) latest" by simp
  with assms(1) have ne: "latest \<noteq> []" by (simp add: selection_ok_empty_iff)
  from main_of_gather [OF l ne, where tostring = tostring and ?md5.0 = md5
      and zips_dir = zips_dir and out_dir = out_dir] l ok ne
  show ?thesis by blast
qed

lemma main_Returned:
  assumes "main fromstring tostring md5 zips_dir out_dir archives w = Inr (w', Returned)"
  shows "\<exists>latest sel.
           gather (find_addons fromstring archives) [] (stderr w)
             = Inr (latest, stderr w @ warned (find_addons fromstring archives))
           \<and> selection_ok (yielded (find_addons fromstring archives)) latest
           \<and> latest \<noteq> []
           \<and> select_sorted latest = Inr sel
           \<and> files w' = (files w)
                (path_join out_dir ''addons.xml'' \<mapsto> xml_header @ tostring (addons_root sel),
                 path_join out_dir ''addons.xml.md5''
                   \<mapsto> hexdigest (md5 (xml_header @ tostring (addons_root sel))))"
proof (cases "gather (find_addons fromstring archives) [] (stderr w)")
  case (Inl e)
  from main_raises [OF this, where tostring = tostring and ?md5.0 = md5
      and zips_dir = zips_dir and out_dir = out_dir] assms
  show ?thesis by simp
next
  case (Inr p)
  obtain latest err where p: "p = (latest, err)" by (cases p)
  show ?thesis
  proof (cases "latest = []")
    case True
    with Inr p assms show ?thesis by (simp add: main_def)
  next
    case False
    from main_of_gather [OF Inr [unfolded p] False, where tostring = tostring and ?md5.0 = md5
      and zips_dir = zips_dir and out_dir = out_dir] assms Inr p False
    show ?thesis by auto
  qed
qed


lemma hex_digit_chars: "n < 16 \<Longrightarrow> hex_digit n \<in> set ''0123456789abcdef''"
proof -
  assume "n < 16"
  then have n: "n \<in> set [0..<16]" by simp
  have "list_all (\<lambda>n. hex_digit n \<in> set ''0123456789abcdef'') [0..<16]" by code_simp
  with n show ?thesis unfolding list_all_iff by (rule bspec [rotated])
qed

lemma hexdigest_chars: "c \<in> set (hexdigest d) \<Longrightarrow> c \<in> set ''0123456789abcdef''"
proof -
  assume "c \<in> set (hexdigest d)"
  then obtain b where c: "c = hex_digit (of_char b div 16) \<or> c = hex_digit (of_char b mod 16)"
    by (auto simp: hexdigest_def)
  have "(of_char b :: nat) div 16 < 16"
  proof -
    have "(of_char b :: nat) mod 256 < 256" by simp
    then have "(of_char b :: nat) < 256" by (simp only: of_char_mod_256)
    then show ?thesis by arith
  qed
  moreover have "(of_char b :: nat) mod 16 < 16" by simp
  ultimately show ?thesis using c hex_digit_chars by blast
qed

lemma yielded_find_addons:
  assumes "r \<in> set (yielded (find_addons fromstring archives))"
  shows "map_of (attrib (elem r)) ''id'' = Some (addon_id r)"
  using assms
proof (induction archives)
  case Nil
  then show ?case by (simp add: find_addons_def)
next
  case (Cons a archives)
  show ?case
  proof (cases "archive_fails fromstring a")
    case True
    then obtain w where "process_zip fromstring a = Warn w"
      using process_zip_fails by blast
    with Cons show ?thesis by (simp add: find_addons_def)
  next
    case False
    then obtain r' where r': "process_zip fromstring a = Yield r'"
      "map_of (attrib (elem r')) ''id'' = Some (addon_id r')"
      using process_zip_usable by blast
    with Cons show ?thesis by (auto simp: find_addons_def)
  qed
qed

lemma long_run_outside_limit:
  "is_digit c \<Longrightarrow> int_max_str_digits < n \<Longrightarrow> \<not> within_limit (replicate n c)"
  by (simp add: within_limit_digits isdigit_replicate)

lemma normalize_Inr_iff: "(\<exists>p. normalize_version v = Inr p) \<longleftrightarrow> within_limit v"
  by (simp add: normalize_version_limit)

lemma long_version_outside_limit: "\<not> within_limit long_version"
proof -
  have "is_digit (CHR ''1'')" by (simp add: is_digit_def)
  then show ?thesis
    unfolding long_version_def
    by (rule long_run_outside_limit) (simp add: int_max_str_digits_def)
qed

lemma gather_Inl_limit:
  assumes "gather evs [] err = Inl e"
  shows "e = ValueError \<and> \<not> list_all (\<lambda>r. within_limit (addon_ver r)) (yielded evs)"
proof
  show "e = ValueError" using assms by (rule gather_Inl)
  show "\<not> list_all (\<lambda>r. within_limit (addon_ver r)) (yielded evs)"
  proof
    assume "list_all (\<lambda>r. within_limit (addon_ver r)) (yielded evs)"
    then have "\<forall>r \<in> set [] \<union> set (yielded evs). within_limit (addon_ver r)"
      by (simp add: list_all_iff)
    from gather_returns [OF selection_ok_empty this, of err] assms show False by simp
  qed
qed

lemma process_zip_found:
  assumes "zopen a = Inr z" "find_addon_xml (namelist z) = Some n"
  shows "process_zip fromstring a =
     (case zread z n of
        Inl BadZipFile \<Rightarrow> Warn (''[WARN] Bad zip file: '' @ zip_path a)
      | Inl (OtherException msg) \<Rightarrow> Warn (''[WARN] '' @ zip_path a @ '': '' @ msg)
      | Inr data \<Rightarrow>
          (case fromstring data of
             Inl BadZipFile \<Rightarrow> Warn (''[WARN] Bad zip file: '' @ zip_path a)
           | Inl (OtherException msg) \<Rightarrow> Warn (''[WARN] '' @ zip_path a @ '': '' @ msg)
           | Inr el \<Rightarrow>
               if falsy (map_of (attrib el) ''id'') \<or> falsy (map_of (attrib el) ''version'')
               then Warn (''[WARN] Missing id/version in '' @ zip_path a)
               else Yield \<lparr>addon_id = the (map_of (attrib el) ''id''),
                           addon_ver = the (map_of (attrib el) ''version''),
                           elem = el, zpath = zip_path a\<rparr>))"
  unfolding process_zip_def try_body_found [OF assms]
  by (simp split: sum.splits exn.splits)





section \<open>The claims\<close>




text \<open>
  Claim C2, as stated, fails: not every scan ends with a selection. Two entries for one
  identifier whose version is a run of 4301 digits make the comparison in the loop of
  \<open>main\<close> raise \<open>ValueError\<close>, which nothing catches.
\<close>

theorem selection_raises_on_long_run:
  "gather [Yield long_first, Yield long_second] [] [] = Inl ValueError"
proof -
  have "map_of [(''plugin.z'', long_first)] (addon_id long_second) = Some long_first"
    by (simp add: long_second_def)
  moreover have "\<not> within_limit (addon_ver long_second)"
    using long_version_outside_limit by (simp add: long_second_def)
  ultimately have "update_latest [(''plugin.z'', long_first)] long_second = Inl ValueError"
    by (simp add: update_latest_cases)
  moreover have "update_latest [] long_first = Inr [(''plugin.z'', long_first)]"
    by (simp add: update_latest_def long_first_def)
  ultimately show ?thesis by simp
qed

text \<open>
  Claim C2, amended. One pass of the loop of \<open>main\<close> stores the new entry under its
  identifier when the table has no entry for the identifier, without comparing; when it
  has one and the comparison returns, it stores the new entry exactly when its version is
  strictly greater, and leaves the table as it is otherwise; when the new or the stored
  version has a digit run longer than 4300 digits, the pass raises \<open>ValueError\<close>. A scan
  whose versions are all within that limit returns; a scan that returns leaves, for each
  identifier yielded, the first entry among those of greatest version (every earlier
  entry for the identifier is strictly smaller, every later one not greater), and nothing
  for any other identifier; a scan that does not return has raised \<open>ValueError\<close> on a
  version outside the limit.
\<close>

theorem selection_keeps_first_greatest:
  "(map_of latest (addon_id r) = None \<longrightarrow>
      update_latest latest r = Inr (AList.update (addon_id r) r latest))
   \<and> (map_of latest (addon_id r) = Some best \<longrightarrow>
        version_gt (addon_ver r) (addon_ver best) = Inr g \<longrightarrow>
        update_latest latest r = Inr (if g then AList.update (addon_id r) r latest else latest))
   \<and> (map_of latest (addon_id r) = Some best \<longrightarrow>
        \<not> (within_limit (addon_ver r) \<and> within_limit (addon_ver best)) \<longrightarrow>
        update_latest latest r = Inl ValueError)
   \<and> (gather evs [] err = Inr (latest', err') \<longrightarrow>
        selection_ok (yielded evs) latest' \<and> err' = err @ warned evs)
   \<and> (list_all (\<lambda>r. within_limit (addon_ver r)) (yielded evs) \<longrightarrow>
        (\<exists>latest'. gather evs [] err = Inr (latest', err @ warned evs)))
   \<and> (gather evs [] err = Inl e \<longrightarrow>
        e = ValueError \<and> \<not> list_all (\<lambda>r. within_limit (addon_ver r)) (yielded evs))"
proof (intro conjI impI)
  assume "map_of latest (addon_id r) = None"
  then show "update_latest latest r = Inr (AList.update (addon_id r) r latest)"
    by (simp add: update_latest_def)
next
  assume "map_of latest (addon_id r) = Some best"
    "version_gt (addon_ver r) (addon_ver best) = Inr g"
  then show "update_latest latest r
               = Inr (if g then AList.update (addon_id r) r latest else latest)"
    by (simp add: update_latest_def)
next
  assume "map_of latest (addon_id r) = Some best"
    "\<not> (within_limit (addon_ver r) \<and> within_limit (addon_ver best))"
  then show "update_latest latest r = Inl ValueError"
    by (simp add: update_latest_cases)
next
  assume g: "gather evs [] err = Inr (latest', err')"
  from gather_ok [OF selection_ok_empty g]
  show "selection_ok (yielded evs) latest'" and "err' = err @ warned evs" by simp_all
next
  assume "list_all (\<lambda>r. within_limit (addon_ver r)) (yielded evs)"
  then have "\<forall>r \<in> set [] \<union> set (yielded evs). within_limit (addon_ver r)"
    by (simp add: list_all_iff)
  from gather_returns [OF selection_ok_empty this, of err]
  show "\<exists>latest'. gather evs [] err = Inr (latest', err @ warned evs)" .
next
  assume "gather evs [] err = Inl e"
  then show "e = ValueError"
    and "\<not> list_all (\<lambda>r. within_limit (addon_ver r)) (yielded evs)"
    using gather_Inl_limit by blast+
qed

theorem selection_keeps_first_greatest_witness:
  "update_latest [(''plugin.y'', entry_120)] entry_130 = Inr [(''plugin.y'', entry_130)]
   \<and> update_latest [(''plugin.y'', entry_130)] entry_120 = Inr [(''plugin.y'', entry_130)]
   \<and> update_latest [] entry_120 = Inr [(''plugin.y'', entry_120)]
   \<and> update_latest [(''plugin.z'', long_first)] long_second = Inl ValueError
   \<and> gather [Yield entry_120, Warn ''w'', Yield entry_130] [] []
       = Inr ([(''plugin.y'', entry_130)], [''w''])
   \<and> first_max [entry_120, entry_130] ''plugin.y'' entry_130"
proof -
  let ?evs = "[Yield entry_120, Warn ''w'', Yield entry_130]"
  have g: "gather ?evs [] [] = Inr ([(''plugin.y'', entry_130)], [''w''])"
    by code_simp
  have m1: "map_of [(''plugin.y'', entry_120)] (addon_id entry_130) = Some entry_120"
    and m2: "map_of [(''plugin.y'', entry_130)] (addon_id entry_120) = Some entry_130"
    and m3: "map_of [] (addon_id entry_120) = (None :: entry option)"
    and m4: "map_of [(''plugin.z'', long_first)] (addon_id long_second) = Some long_first"
    by (simp_all add: entry_120_def entry_130_def long_second_def)
  have c1: "version_gt (addon_ver entry_130) (addon_ver entry_120) = Inr True"
    and c2: "version_gt (addon_ver entry_120) (addon_ver entry_130) = Inr False"
    by code_simp+
  have i1: "AList.update (addon_id entry_130) entry_130 [(''plugin.y'', entry_120)]
              = [(''plugin.y'', entry_130)]"
    and i3: "AList.update (addon_id entry_120) entry_120 [] = [(''plugin.y'', entry_120)]"
    by (simp_all add: entry_130_def entry_120_def)
  have lim: "\<not> (within_limit (addon_ver long_second) \<and> within_limit (addon_ver long_first))"
    using long_version_outside_limit by (simp add: long_second_def)
  from selection_keeps_first_greatest
    [of "[(''plugin.y'', entry_120)]" entry_130 entry_120 True ?evs "[]"
        "[(''plugin.y'', entry_130)]" "[''w'']"] m1 c1 g
  have u1: "update_latest [(''plugin.y'', entry_120)] entry_130
              = Inr (if True then AList.update (addon_id entry_130) entry_130
                                   [(''plugin.y'', entry_120)]
                     else [(''plugin.y'', entry_120)])"
    and ok: "selection_ok (yielded ?evs) [(''plugin.y'', entry_130)]"
    by blast+
  from selection_keeps_first_greatest
    [of "[(''plugin.y'', entry_130)]" entry_120 entry_130 False ?evs "[]"] m2 c2
  have u2: "update_latest [(''plugin.y'', entry_130)] entry_120
              = Inr (if False then AList.update (addon_id entry_120) entry_120
                                    [(''plugin.y'', entry_130)]
                     else [(''plugin.y'', entry_130)])"
    by blast
  from selection_keeps_first_greatest [of "[]" entry_120] m3
  have u3: "update_latest [] entry_120 = Inr (AList.update (addon_id entry_120) entry_120 [])"
    by blast
  from selection_keeps_first_greatest
    [of "[(''plugin.z'', long_first)]" long_second long_first] m4 lim
  have u4: "update_latest [(''plugin.z'', long_first)] long_second = Inl ValueError"
    by blast
  from ok have "case map_of [(''plugin.y'', entry_130)] ''plugin.y'' of
               None \<Rightarrow> ''plugin.y'' \<notin> addon_id ` set (yielded ?evs)
             | Some b \<Rightarrow> first_max (yielded ?evs) ''plugin.y'' b"
    unfolding selection_ok_def by blast
  then have fm: "first_max [entry_120, entry_130] ''plugin.y'' entry_130" by simp
  from u1 i1 have a1: "update_latest [(''plugin.y'', entry_120)] entry_130
                         = Inr [(''plugin.y'', entry_130)]" by simp
  from u2 have a2: "update_latest [(''plugin.y'', entry_130)] entry_120
                         = Inr [(''plugin.y'', entry_130)]" by simp
  from u3 i3 have a3: "update_latest [] entry_120 = Inr [(''plugin.y'', entry_120)]" by simp
  from a1 a2 a3 u4 g fm show ?thesis by (intro conjI)
qed

text \<open>
  Claim C3. After a run of \<open>main\<close> that returns (the selection is not empty), the bytes of
  \<open>addons.xml\<close> are the XML declaration, one line feed that closes the fixed header, and
  then what \<open>tostring\<close> gives for the root element \<open>addons\<close>, whose children are the
  descriptors selected; nothing stands between the header and the serialized root. The
  serializer \<open>tostring\<close> is a parameter.
\<close>

theorem addons_xml_begins_with_declaration:
  "main fromstring tostring md5 zips_dir out_dir archives w = Inr (w', Returned) \<longrightarrow>
     (\<exists>latest err sel.
        gather (find_addons fromstring archives) [] (stderr w) = Inr (latest, err)
        \<and> latest \<noteq> [] \<and> select_sorted latest = Inr sel
        \<and> files w' (path_join out_dir ''addons.xml'')
            = Some (xml_declaration @ [CHR 0x0A] @ tostring (addons_root sel))
        \<and> take (length xml_declaration)
              (xml_declaration @ [CHR 0x0A] @ tostring (addons_root sel)) = xml_declaration
        \<and> tag (addons_root sel) = ''addons''
        \<and> children (addons_root sel) = map elem sel)"
proof
  assume m: "main fromstring tostring md5 zips_dir out_dir archives w = Inr (w', Returned)"
  from main_Returned [OF m]
  obtain latest sel where r:
    "gather (find_addons fromstring archives) [] (stderr w)
       = Inr (latest, stderr w @ warned (find_addons fromstring archives))"
    "latest \<noteq> []" "select_sorted latest = Inr sel"
    "files w' = (files w)
       (path_join out_dir ''addons.xml'' \<mapsto> xml_header @ tostring (addons_root sel),
        path_join out_dir ''addons.xml.md5''
          \<mapsto> hexdigest (md5 (xml_header @ tostring (addons_root sel))))"
    by auto
  from r(4) have "files w' (path_join out_dir ''addons.xml'')
            = Some (xml_declaration @ [CHR 0x0A] @ tostring (addons_root sel))"
    by (simp add: path_join_distinct xml_header_def)
  with r(1-3) show "\<exists>latest err sel.
        gather (find_addons fromstring archives) [] (stderr w) = Inr (latest, err)
        \<and> latest \<noteq> [] \<and> select_sorted latest = Inr sel
        \<and> files w' (path_join out_dir ''addons.xml'')
            = Some (xml_declaration @ [CHR 0x0A] @ tostring (addons_root sel))
        \<and> take (length xml_declaration)
              (xml_declaration @ [CHR 0x0A] @ tostring (addons_root sel)) = xml_declaration
        \<and> tag (addons_root sel) = ''addons''
        \<and> children (addons_root sel) = map elem sel"
    by (auto simp: addons_root_tag addons_root_children)
qed

theorem addons_xml_begins_with_declaration_witness:
  \<open>\<exists>w'. main sample_parse sample_tostring sample_digest ''/repo/zips'' ''/repo''
           [sample_zip ''/repo/zips/x.zip'' [''plugin.x/addon.xml''] ''plugin.x 1.0'']
           empty_world = Inr (w', Returned)
        \<and> files w' ''/repo/addons.xml''
            = Some (''<?xml version="1.0" encoding="UTF-8" standalone="yes"?>'' @ [CHR 0x0A]
                    @ ''<addons><addon id="plugin.x" version="1.0"></addon></addons>'')\<close>
proof -
  let ?good = "[sample_zip ''/repo/zips/x.zip'' [''plugin.x/addon.xml''] ''plugin.x 1.0'']"
  let ?E = "\<lparr>addon_id = ''plugin.x'', addon_ver = ''1.0'',
             elem = Element ''addon'' [(''id'', ''plugin.x''), (''version'', ''1.0'')] None [],
             zpath = ''/repo/zips/x.zip''\<rparr>"
  have y1: "yielded (find_addons sample_parse ?good) \<noteq> []" by code_simp
  have p1: "path_join ''/repo'' ''addons.xml'' = ''/repo/addons.xml''" by code_simp
  have g0: "gather (find_addons sample_parse ?good) [] [] = Inr ([(''plugin.x'', ?E)], [])"
    by code_simp
  have s0: "select_sorted [(''plugin.x'', ?E)] = Inr [?E]" by code_simp
  have t0: \<open>sample_tostring (addons_root [?E])
              = ''<addons><addon id="plugin.x" version="1.0"></addon></addons>''\<close>
    by code_simp
  have d0: \<open>xml_declaration = ''<?xml version="1.0" encoding="UTF-8" standalone="yes"?>''\<close>
    by (rule xml_declaration_def)
  have e0: "stderr empty_world = []" by (simp add: empty_world_def)
  have lim: "list_all (\<lambda>r. within_limit (addon_ver r)) (yielded (find_addons sample_parse ?good))"
    by code_simp
  from main_nonempty [OF y1 lim, where tostring = sample_tostring and ?md5.0 = sample_digest
      and zips_dir = "''/repo/zips''" and out_dir = "''/repo''" and w = empty_world]
  obtain w' where m: "main sample_parse sample_tostring sample_digest ''/repo/zips'' ''/repo''
       ?good empty_world = Inr (w', Returned)"
    by blast
  from addons_xml_begins_with_declaration
    [of sample_parse sample_tostring sample_digest "''/repo/zips''" "''/repo''" ?good
        empty_world w'] m
  obtain latest err sel where r:
    "gather (find_addons sample_parse ?good) [] (stderr empty_world) = Inr (latest, err)"
    "select_sorted latest = Inr sel"
    "files w' (path_join ''/repo'' ''addons.xml'')
            = Some (xml_declaration @ [CHR 0x0A] @ sample_tostring (addons_root sel))"
    by blast
  from r(1) g0 have "latest = [(''plugin.x'', ?E)]" unfolding e0 by simp
  with r(2) s0 have "sel = [?E]" by simp
  with r(3) have \<open>files w' ''/repo/addons.xml''
            = Some (''<?xml version="1.0" encoding="UTF-8" standalone="yes"?>'' @ [CHR 0x0A]
                    @ ''<addons><addon id="plugin.x" version="1.0"></addon></addons>'')\<close>
    unfolding p1 t0 d0 by (simp only: t0)
  with m show ?thesis by (intro exI [of _ w'] conjI)
qed

text \<open>
  Claim C4. After a run of \<open>main\<close> that returns (the selection table is not empty), the
  root element serialized into \<open>addons.xml\<close> has as children the descriptors of the entries
  selected, one for each identifier yielded by the scan and no identifier twice, in
  strictly ascending order of the identifiers (the order of strings by code points); the
  identifier of an entry is the \<open>id\<close> attribute of its descriptor. With archives for
  \<open>b.addon\<close> and \<open>a.addon\<close>, in that order, \<open>a.addon\<close> comes first in the document.
\<close>

theorem one_fragment_per_identifier_sorted:
  "main fromstring tostring md5 zips_dir out_dir archives w = Inr (w', Returned) \<longrightarrow>
     (\<exists>latest err sel.
        gather (find_addons fromstring archives) [] (stderr w) = Inr (latest, err)
        \<and> select_sorted latest = Inr sel
        \<and> files w' (path_join out_dir ''addons.xml'')
            = Some (xml_header @ tostring (addons_root sel))
        \<and> children (addons_root sel) = map elem sel
        \<and> map addon_id sel = sort (map fst latest)
        \<and> sorted_wrt (<) (map addon_id sel) \<and> distinct (map addon_id sel)
        \<and> addon_id ` set sel = addon_id ` set (yielded (find_addons fromstring archives))
        \<and> (\<forall>r \<in> set sel. map_of (attrib (elem r)) ''id'' = Some (addon_id r)))"
proof
  assume m: "main fromstring tostring md5 zips_dir out_dir archives w = Inr (w', Returned)"
  from main_Returned [OF m]
  obtain latest sel where r:
    "gather (find_addons fromstring archives) [] (stderr w)
       = Inr (latest, stderr w @ warned (find_addons fromstring archives))"
    "selection_ok (yielded (find_addons fromstring archives)) latest"
    "select_sorted latest = Inr sel"
    "files w' = (files w)
       (path_join out_dir ''addons.xml'' \<mapsto> xml_header @ tostring (addons_root sel),
        path_join out_dir ''addons.xml.md5''
          \<mapsto> hexdigest (md5 (xml_header @ tostring (addons_root sel))))"
    by auto
  from select_sorted_ok [OF r(2)] r(3)
  have s: "map addon_id sel = sort (map fst latest)" "sorted_wrt (<) (map addon_id sel)"
    "set sel \<subseteq> set (yielded (find_addons fromstring archives))"
    "addon_id ` set sel = addon_id ` set (yielded (find_addons fromstring archives))"
    by auto
  from s(2) have dist: "distinct (map addon_id sel)" by (simp add: strict_sorted_iff)
  from s(3) have ids: "\<forall>r \<in> set sel. map_of (attrib (elem r)) ''id'' = Some (addon_id r)"
    using yielded_find_addons by blast
  from r(4) have f: "files w' (path_join out_dir ''addons.xml'')
            = Some (xml_header @ tostring (addons_root sel))"
    by (simp add: path_join_distinct)
  from r(1) r(3) f s(1,2,4) dist ids addons_root_children [of sel]
  show "\<exists>latest err sel.
        gather (find_addons fromstring archives) [] (stderr w) = Inr (latest, err)
        \<and> select_sorted latest = Inr sel
        \<and> files w' (path_join out_dir ''addons.xml'')
            = Some (xml_header @ tostring (addons_root sel))
        \<and> children (addons_root sel) = map elem sel
        \<and> map addon_id sel = sort (map fst latest)
        \<and> sorted_wrt (<) (map addon_id sel) \<and> distinct (map addon_id sel)
        \<and> addon_id ` set sel = addon_id ` set (yielded (find_addons fromstring archives))
        \<and> (\<forall>r \<in> set sel. map_of (attrib (elem r)) ''id'' = Some (addon_id r))"
    by blast
qed

theorem one_fragment_per_identifier_sorted_witness:
  \<open>\<exists>w'. main sample_parse sample_tostring sample_digest ''/repo/zips'' ''/repo''
           [sample_zip ''/repo/zips/b.zip'' [''b.addon/addon.xml''] ''b.addon 2.0'',
            sample_zip ''/repo/zips/a.zip'' [''a.addon/addon.xml''] ''a.addon 1.0'']
           empty_world = Inr (w', Returned)
        \<and> files w' ''/repo/addons.xml''
            = Some (xml_header
                    @ ''<addons><addon id="a.addon" version="1.0"></addon><addon id="b.addon" version="2.0"></addon></addons>'')\<close>
proof -
  let ?in = "[sample_zip ''/repo/zips/b.zip'' [''b.addon/addon.xml''] ''b.addon 2.0'',
              sample_zip ''/repo/zips/a.zip'' [''a.addon/addon.xml''] ''a.addon 1.0'']"
  let ?A = "\<lparr>addon_id = ''a.addon'', addon_ver = ''1.0'',
             elem = Element ''addon'' [(''id'', ''a.addon''), (''version'', ''1.0'')] None [],
             zpath = ''/repo/zips/a.zip''\<rparr>"
  let ?B = "\<lparr>addon_id = ''b.addon'', addon_ver = ''2.0'',
             elem = Element ''addon'' [(''id'', ''b.addon''), (''version'', ''2.0'')] None [],
             zpath = ''/repo/zips/b.zip''\<rparr>"
  have y1: "yielded (find_addons sample_parse ?in) \<noteq> []" by code_simp
  have p1: "path_join ''/repo'' ''addons.xml'' = ''/repo/addons.xml''" by code_simp
  have g0: "gather (find_addons sample_parse ?in) [] []
              = Inr ([(''b.addon'', ?B), (''a.addon'', ?A)], [])"
    by code_simp
  have s0: "select_sorted [(''b.addon'', ?B), (''a.addon'', ?A)] = Inr [?A, ?B]" by code_simp
  have t0: \<open>sample_tostring (addons_root [?A, ?B])
              = ''<addons><addon id="a.addon" version="1.0"></addon><addon id="b.addon" version="2.0"></addon></addons>''\<close>
    by code_simp
  have e0: "stderr empty_world = []" by (simp add: empty_world_def)
  have lim: "list_all (\<lambda>r. within_limit (addon_ver r)) (yielded (find_addons sample_parse ?in))"
    by code_simp
  from main_nonempty [OF y1 lim, where tostring = sample_tostring and ?md5.0 = sample_digest
      and zips_dir = "''/repo/zips''" and out_dir = "''/repo''" and w = empty_world]
  obtain w' where m: "main sample_parse sample_tostring sample_digest ''/repo/zips'' ''/repo''
       ?in empty_world = Inr (w', Returned)"
    by blast
  from one_fragment_per_identifier_sorted
    [of sample_parse sample_tostring sample_digest "''/repo/zips''" "''/repo''" ?in
        empty_world w'] m
  obtain latest err sel where r:
    "gather (find_addons sample_parse ?in) [] (stderr empty_world) = Inr (latest, err)"
    "select_sorted latest = Inr sel"
    "files w' (path_join ''/repo'' ''addons.xml'')
            = Some (xml_header @ sample_tostring (addons_root sel))"
    by blast
  from r(1) g0 have "latest = [(''b.addon'', ?B), (''a.addon'', ?A)]" unfolding e0 by simp
  with r(2) s0 have "sel = [?A, ?B]" by simp
  with r(3) have \<open>files w' ''/repo/addons.xml''
            = Some (xml_header
                    @ ''<addons><addon id="a.addon" version="1.0"></addon><addon id="b.addon" version="2.0"></addon></addons>'')\<close>
    unfolding p1 by (simp only: t0)
  with m show ?thesis by (intro exI [of _ w'] conjI)
qed

text \<open>
  Claim C5. After a run of \<open>main\<close> that returns, that is a run that writes its output, the
  file \<open>addons.xml.md5\<close> holds the hexadecimal digest of the bytes of \<open>addons.xml\<close> as they
  are in the file: two lower-case hexadecimal digits for each byte of the digest and
  nothing more. The digest function \<open>md5\<close> is a parameter.
\<close>

theorem md5_file_is_digest_of_xml_file:
  "main fromstring tostring md5 zips_dir out_dir archives w = Inr (w', Returned) \<longrightarrow>
     (\<exists>content. files w' (path_join out_dir ''addons.xml'') = Some content
        \<and> files w' (path_join out_dir ''addons.xml.md5'') = Some (hexdigest (md5 content))
        \<and> length (hexdigest (md5 content)) = 2 * length (md5 content)
        \<and> (\<forall>c \<in> set (hexdigest (md5 content)). c \<in> set ''0123456789abcdef''))"
proof
  assume m: "main fromstring tostring md5 zips_dir out_dir archives w = Inr (w', Returned)"
  from main_Returned [OF m]
  obtain sel where
    "files w' = (files w)
       (path_join out_dir ''addons.xml'' \<mapsto> xml_header @ tostring (addons_root sel),
        path_join out_dir ''addons.xml.md5''
          \<mapsto> hexdigest (md5 (xml_header @ tostring (addons_root sel))))"
    by auto
  then have "files w' (path_join out_dir ''addons.xml'')
               = Some (xml_header @ tostring (addons_root sel))"
    "files w' (path_join out_dir ''addons.xml.md5'')
               = Some (hexdigest (md5 (xml_header @ tostring (addons_root sel))))"
    by (simp_all add: path_join_distinct)
  then show "\<exists>content. files w' (path_join out_dir ''addons.xml'') = Some content
        \<and> files w' (path_join out_dir ''addons.xml.md5'') = Some (hexdigest (md5 content))
        \<and> length (hexdigest (md5 content)) = 2 * length (md5 content)
        \<and> (\<forall>c \<in> set (hexdigest (md5 content)). c \<in> set ''0123456789abcdef'')"
    using length_hexdigest hexdigest_chars by blast
qed

theorem md5_file_is_digest_of_xml_file_witness:
  "\<exists>w' content.
     main sample_parse sample_tostring sample_digest ''/repo/zips'' ''/repo''
       [sample_zip ''/repo/zips/x.zip'' [''plugin.x/addon.xml''] ''plugin.x 1.0'']
       empty_world = Inr (w', Returned)
     \<and> files w' ''/repo/addons.xml'' = Some content
     \<and> files w' ''/repo/addons.xml.md5'' = Some (hexdigest (sample_digest content))
     \<and> length (hexdigest (sample_digest content)) = 32"
proof -
  let ?good = "[sample_zip ''/repo/zips/x.zip'' [''plugin.x/addon.xml''] ''plugin.x 1.0'']"
  have y1: "yielded (find_addons sample_parse ?good) \<noteq> []" by code_simp
  have p1: "path_join ''/repo'' ''addons.xml'' = ''/repo/addons.xml''"
    and p2: "path_join ''/repo'' ''addons.xml.md5'' = ''/repo/addons.xml.md5''"
    by code_simp+
  have lim: "list_all (\<lambda>r. within_limit (addon_ver r)) (yielded (find_addons sample_parse ?good))"
    by code_simp
  from main_nonempty [OF y1 lim, where tostring = sample_tostring and ?md5.0 = sample_digest
      and zips_dir = "''/repo/zips''" and out_dir = "''/repo''" and w = empty_world]
  obtain w' where m: "main sample_parse sample_tostring sample_digest ''/repo/zips'' ''/repo''
       ?good empty_world = Inr (w', Returned)"
    by blast
  from md5_file_is_digest_of_xml_file
    [of sample_parse sample_tostring sample_digest "''/repo/zips''" "''/repo''" ?good
        empty_world w'] m
  obtain content where c:
    "files w' (path_join ''/repo'' ''addons.xml'') = Some content"
    "files w' (path_join ''/repo'' ''addons.xml.md5'') = Some (hexdigest (sample_digest content))"
    "length (hexdigest (sample_digest content)) = 2 * length (sample_digest content)"
    by blast
  have c1: "files w' ''/repo/addons.xml'' = Some content"
    and c2: "files w' ''/repo/addons.xml.md5'' = Some (hexdigest (sample_digest content))"
    using c(1,2) unfolding p1 p2 by simp_all
  have c3: "length (hexdigest (sample_digest content)) = 32"
    using c(3) by (simp add: sample_digest_def)
  show ?thesis
    using m c1 c2 c3 by (intro exI [of _ w'] exI [of _ content] conjI)
qed





text \<open>
  Claim C8, as stated, fails: the comparison is not defined for every pair of version
  strings. A version that is one run of 4301 digits makes \<open>normalize_version\<close> raise
  \<open>ValueError\<close>.
\<close>

theorem version_order_fails_on_long_run:
  "version_gt (replicate 4301 (CHR ''1'')) ''1.0.0'' = Inl ValueError"
proof -
  have "is_digit (CHR ''1'')" by (simp add: is_digit_def)
  then have "\<not> within_limit (replicate 4301 (CHR ''1''))"
    by (rule long_run_outside_limit) (simp add: int_max_str_digits_def)
  then show ?thesis by (simp add: version_gt_key)
qed

text \<open>
  Claim C8, amended. The comparison of two normalized versions returns exactly when both
  version strings are within the limit of the conversion, that is when \<open>normalize_version\<close>
  returns for both (no digit run longer than 4300 digits); otherwise it raises
  \<open>ValueError\<close>. Where it returns it is transitive; two versions within the limit whose
  normalized tuples differ are comparable, one way only, and two with the same tuple tie.
  The version \<open>1.0.0+meta\<close> exceeds \<open>1.0.0\<close>.
\<close>

theorem version_order_within_limit:
  "((\<exists>r. version_gt a b = Inr r) \<longleftrightarrow> within_limit a \<and> within_limit b)
   \<and> (\<not> (within_limit a \<and> within_limit b) \<longrightarrow> version_gt a b = Inl ValueError)
   \<and> (within_limit a \<longleftrightarrow> (\<exists>p. normalize_version a = Inr p))
   \<and> (version_gt a b = Inr True \<longrightarrow> version_gt b c = Inr True \<longrightarrow> version_gt a c = Inr True)
   \<and> (within_limit a \<longrightarrow> within_limit b \<longrightarrow> normalize_version a \<noteq> normalize_version b
        \<longrightarrow> version_gt a b = Inr True \<or> version_gt b a = Inr True)
   \<and> (version_gt a b = Inr True \<longrightarrow> version_gt b a = Inr False)
   \<and> (within_limit a \<longrightarrow> within_limit b \<longrightarrow> normalize_version a = normalize_version b
        \<longrightarrow> version_gt a b = Inr False)
   \<and> version_gt ''1.0.0+meta'' ''1.0.0'' = Inr True"
proof -
  have ex: "version_gt ''1.0.0+meta'' ''1.0.0'' = Inr True" by code_simp
  have def: "(\<exists>r. version_gt a b = Inr r) \<longleftrightarrow> within_limit a \<and> within_limit b"
    by (simp add: version_gt_key)
  have err: "\<not> (within_limit a \<and> within_limit b) \<longrightarrow> version_gt a b = Inl ValueError"
    by (simp add: version_gt_key)
  have lim: "within_limit a \<longleftrightarrow> (\<exists>p. normalize_version a = Inr p)"
    by (simp add: normalize_Inr_iff)
  have trans: "version_gt a b = Inr True \<longrightarrow> version_gt b c = Inr True
      \<longrightarrow> version_gt a c = Inr True"
    unfolding version_gt_True by (meson less_trans)
  have total: "within_limit a \<longrightarrow> within_limit b
      \<longrightarrow> normalize_version a \<noteq> normalize_version b
      \<longrightarrow> version_gt a b = Inr True \<or> version_gt b a = Inr True"
    using version_key_eq [of a b]
    by (auto simp: version_gt_True normalize_version_limit)
  have asym: "version_gt a b = Inr True \<longrightarrow> version_gt b a = Inr False"
    unfolding version_gt_True version_gt_False by (meson less_asym)
  have eq: "within_limit a \<longrightarrow> within_limit b
      \<longrightarrow> normalize_version a = normalize_version b \<longrightarrow> version_gt a b = Inr False"
    using version_key_eq [of a b]
    by (auto simp: version_gt_False normalize_version_limit)
  from def err lim trans total asym eq ex show ?thesis by (intro conjI)
qed

theorem version_order_within_limit_witness:
  "within_limit ''1.0.1'' \<and> within_limit ''1.0.0~alpha'' \<and> within_limit ''1.0.0''
   \<and> version_gt ''1.0.1'' ''1.0.0~alpha'' = Inr True
   \<and> version_gt ''1.0.0~alpha'' ''1.0.0'' = Inr True
   \<and> version_gt ''1.0.1'' ''1.0.0'' = Inr True
   \<and> version_gt ''1.0.0'' ''1.0.1'' = Inr False
   \<and> normalize_version ''1.0.1'' \<noteq> normalize_version ''1.0.0''
   \<and> \<not> within_limit (replicate 4301 (CHR ''9''))
   \<and> version_gt (replicate 4301 (CHR ''9'')) ''2'' = Inl ValueError"
proof -
  have w: "within_limit ''1.0.1''" "within_limit ''1.0.0~alpha''" "within_limit ''1.0.0''"
    by code_simp+
  have h1: "version_gt ''1.0.1'' ''1.0.0~alpha'' = Inr True" by code_simp
  have h2: "version_gt ''1.0.0~alpha'' ''1.0.0'' = Inr True" by code_simp
  have h3: "normalize_version ''1.0.1'' \<noteq> normalize_version ''1.0.0''" by code_simp
  from version_order_within_limit [of "''1.0.1''" "''1.0.0~alpha''" "''1.0.0''"] h1 h2
  have h4: "version_gt ''1.0.1'' ''1.0.0'' = Inr True" by blast
  from version_order_within_limit [of "''1.0.1''" "''1.0.0''" "''1.0.0''"] h4
  have h5: "version_gt ''1.0.0'' ''1.0.1'' = Inr False" by blast
  have "is_digit (CHR ''9'')" by (simp add: is_digit_def)
  then have n: "\<not> within_limit (replicate 4301 (CHR ''9''))"
    by (rule long_run_outside_limit) (simp add: int_max_str_digits_def)
  with version_order_within_limit [of "replicate 4301 (CHR ''9'')" "''2''" "''2''"]
  have h6: "version_gt (replicate 4301 (CHR ''9'')) ''2'' = Inl ValueError" by blast
  from w h1 h2 h4 h5 h3 n h6 show ?thesis by (intro conjI)
qed

text \<open>
  Claim C9, as stated, fails for leading zeros: 4300 zeros in front of the digit run \<open>1\<close>
  make a run of 4301 digits, on which \<open>normalize_version\<close> raises \<open>ValueError\<close>, while it
  returns a tuple for \<open>1\<close>.
\<close>

theorem leading_zeros_change_normalize_version:
  "normalize_version (replicate 4300 (CHR ''0'') @ ''1'') \<noteq> normalize_version ''1''"
proof -
  have d: "is_digit (CHR ''1'')" by (simp add: is_digit_def)
  have "normalize_version ([] @ replicate 4300 (CHR ''0'') @ CHR ''1'' # []) = Inl ValueError"
    using d by (subst normalize_leading_zeros) (simp_all add: int_max_str_digits_def)
  moreover have "normalize_version ''1'' = Inr [(0, PInt 1)]" by code_simp
  ultimately show ?thesis by simp
qed

text \<open>
  Claim C9, amended. \<open>normalize_version\<close> gives the same result for two version strings
  that differ in the case of letters \<open>A\<close> to \<open>Z\<close> only. Zeros put in front of a digit run
  (the run starts where the string starts or after a character that is no digit) leave
  the result as it is as long as the run with the zeros has at most 4300 digits; with a
  longer run \<open>normalize_version\<close> raises \<open>ValueError\<close>. So \<open>1.01\<close> and \<open>1.1\<close>, and \<open>1.0.0A\<close> and
  \<open>1.0.0a\<close>, normalize to equal tuples; neither of two versions with one normalized tuple
  is greater than the other, and of two entries with one identifier and such versions the
  first one stays in the selection.
\<close>

theorem normalize_version_case_and_zeros:
  "(same_up_to_case v w \<longrightarrow> normalize_version v = normalize_version w)
   \<and> (is_digit d \<longrightarrow> (pre = [] \<or> \<not> is_digit (last pre)) \<longrightarrow>
        normalize_version (pre @ replicate k (CHR ''0'') @ d # post)
          = (if k + Suc (length (takeWhile is_digit post)) \<le> 4300
             then normalize_version (pre @ d # post) else Inl ValueError))
   \<and> normalize_version ''1.01'' = normalize_version ''1.1''
   \<and> normalize_version ''1.0.0A'' = normalize_version ''1.0.0a''
   \<and> (normalize_version v = Inr p \<longrightarrow> normalize_version w = Inr p \<longrightarrow>
        version_gt v w = Inr False \<and> version_gt w v = Inr False)
   \<and> (map_of latest (addon_id r) = Some best \<longrightarrow>
        normalize_version (addon_ver r) = Inr p \<longrightarrow>
        normalize_version (addon_ver best) = Inr p \<longrightarrow>
        update_latest latest r = Inr latest)
   \<and> (addon_id r2 = addon_id r1 \<longrightarrow>
        normalize_version (addon_ver r2) = Inr p \<longrightarrow>
        normalize_version (addon_ver r1) = Inr p \<longrightarrow>
        gather [Yield r1, Yield r2] [] err = Inr ([(addon_id r1, r1)], err))"
proof -
  have a: "same_up_to_case v w \<longrightarrow> normalize_version v = normalize_version w"
    using normalize_same_up_to_case by blast
  have b: "is_digit d \<longrightarrow> (pre = [] \<or> \<not> is_digit (last pre)) \<longrightarrow>
        normalize_version (pre @ replicate k (CHR ''0'') @ d # post)
          = (if k + Suc (length (takeWhile is_digit post)) \<le> 4300
             then normalize_version (pre @ d # post) else Inl ValueError)"
    using normalize_leading_zeros [of d pre k post]
    by (simp add: int_max_str_digits_def)
  have c: "normalize_version ''1.01'' = normalize_version ''1.1''" by code_simp
  have d: "normalize_version ''1.0.0A'' = normalize_version ''1.0.0a''" by code_simp
  have e: "normalize_version v = Inr p \<longrightarrow> normalize_version w = Inr p \<longrightarrow>
        version_gt v w = Inr False \<and> version_gt w v = Inr False"
  proof (intro impI)
    assume "normalize_version v = Inr p" "normalize_version w = Inr p"
    then have "within_limit v" "within_limit w" "parts_of v = parts_of w"
      by (auto simp: normalize_version_limit split: if_splits)
    then show "version_gt v w = Inr False \<and> version_gt w v = Inr False"
      by (simp add: version_gt_key version_key_def)
  qed
  have f: "map_of latest (addon_id r) = Some best \<longrightarrow>
        normalize_version (addon_ver r) = Inr p \<longrightarrow>
        normalize_version (addon_ver best) = Inr p \<longrightarrow>
        update_latest latest r = Inr latest"
    using update_latest_tie by blast
  have g: "addon_id r2 = addon_id r1 \<longrightarrow>
        normalize_version (addon_ver r2) = Inr p \<longrightarrow>
        normalize_version (addon_ver r1) = Inr p \<longrightarrow>
        gather [Yield r1, Yield r2] [] err = Inr ([(addon_id r1, r1)], err)"
  proof (intro impI)
    assume h: "addon_id r2 = addon_id r1"
      "normalize_version (addon_ver r2) = Inr p" "normalize_version (addon_ver r1) = Inr p"
    have "update_latest [(addon_id r1, r1)] r2 = Inr [(addon_id r1, r1)]"
      using h by (intro update_latest_tie [of "[(addon_id r1, r1)]" r2 r1 p]) simp_all
    then show "gather [Yield r1, Yield r2] [] err = Inr ([(addon_id r1, r1)], err)"
      by (simp add: update_latest_def)
  qed
  from a b c d e f g show ?thesis by (intro conjI)
qed

theorem normalize_version_case_and_zeros_witness:
  "same_up_to_case ''1.0.0A'' ''1.0.0a''
   \<and> normalize_version ''1.0.0A'' = normalize_version ''1.0.0a''
   \<and> is_digit (CHR ''1'') \<and> \<not> is_digit (last ''1.'')
   \<and> normalize_version (''1.'' @ replicate 2 (CHR ''0'') @ CHR ''1'' # ''.5'')
       = normalize_version ''1.1.5''
   \<and> normalize_version (''1.'' @ replicate 4300 (CHR ''0'') @ CHR ''1'' # ''.5'') = Inl ValueError
   \<and> normalize_version ''1.01'' = Inr [(0, PInt 1), (0, PInt 1)]
   \<and> version_gt ''1.01'' ''1.1'' = Inr False
   \<and> map_of [(''plugin.x'', tie_first)] (addon_id tie_second) = Some tie_first
   \<and> update_latest [(''plugin.x'', tie_first)] tie_second = Inr [(''plugin.x'', tie_first)]
   \<and> gather [Yield tie_first, Yield tie_second] [] [] = Inr ([(''plugin.x'', tie_first)], [])"
proof -
  have h1: "same_up_to_case ''1.0.0A'' ''1.0.0a''" by code_simp
  have h2: "is_digit (CHR ''1'')" by code_simp
  have h3: "\<not> is_digit (last ''1.'')" by code_simp
  have n1: "normalize_version ''1.01'' = Inr [(0, PInt 1), (0, PInt 1)]"
    and n2: "normalize_version ''1.1'' = Inr [(0, PInt 1), (0, PInt 1)]"
    by code_simp+
  have v1: "normalize_version (addon_ver tie_second) = Inr [(0, PInt 1), (0, PInt 1)]"
    and v2: "normalize_version (addon_ver tie_first) = Inr [(0, PInt 1), (0, PInt 1)]"
    by code_simp+
  have h5: "map_of [(''plugin.x'', tie_first)] (addon_id tie_second) = Some tie_first"
    by (simp add: tie_second_def)
  have h6: "addon_id tie_second = addon_id tie_first" "addon_id tie_first = ''plugin.x''"
    by (simp_all add: tie_first_def tie_second_def)
  have t5: "takeWhile is_digit ''.5'' = []" by code_simp
  note t = normalize_version_case_and_zeros
    [of "''1.0.0A''" "''1.0.0a''" "CHR ''1''" "''1.''" 2 "''.5''"
        "[(0, PInt 1), (0, PInt 1)]"
        "[(''plugin.x'', tie_first)]" tie_second tie_first tie_second tie_first "[]"]
  note tl = normalize_version_case_and_zeros
    [of "''1.01''" "''1.1''" "CHR ''1''" "''1.''" 4300 "''.5''"
        "[(0, PInt 1), (0, PInt 1)]"
        "[(''plugin.x'', tie_first)]" tie_second tie_first tie_second tie_first "[]"]
  from t h1 have g1: "normalize_version ''1.0.0A'' = normalize_version ''1.0.0a''" by blast
  from t h2 h3 have "normalize_version (''1.'' @ replicate 2 (CHR ''0'') @ CHR ''1'' # ''.5'')
      = (if 2 + Suc (length (takeWhile is_digit ''.5'')) \<le> 4300
         then normalize_version (''1.'' @ CHR ''1'' # ''.5'') else Inl ValueError)" by blast
  then have g2: "normalize_version (''1.'' @ replicate 2 (CHR ''0'') @ CHR ''1'' # ''.5'')
      = normalize_version ''1.1.5''"
    by (simp add: t5)
  from tl h2 h3 have "normalize_version (''1.'' @ replicate 4300 (CHR ''0'') @ CHR ''1'' # ''.5'')
      = (if 4300 + Suc (length (takeWhile is_digit ''.5'')) \<le> 4300
         then normalize_version (''1.'' @ CHR ''1'' # ''.5'') else Inl ValueError)" by blast
  then have g2': "normalize_version (''1.'' @ replicate 4300 (CHR ''0'') @ CHR ''1'' # ''.5'')
      = Inl ValueError"
    by (simp add: t5)
  from tl n1 n2 have g3: "version_gt ''1.01'' ''1.1'' = Inr False" by blast
  from t v1 v2 h5 have g4:
    "update_latest [(''plugin.x'', tie_first)] tie_second = Inr [(''plugin.x'', tie_first)]"
    by blast
  from t v1 v2 h6 have g5:
    "gather [Yield tie_first, Yield tie_second] [] [] = Inr ([(''plugin.x'', tie_first)], [])"
    by simp
  from h1 g1 h2 h3 g2 g2' n1 g3 h5 g4 g5 show ?thesis by (intro conjI)
qed

text \<open>
  Claim C10, as stated, fails when two members of an archive bear the first matching
  name: the descriptor used is then the later member, not the first entry of the name
  list. The archive \<open>dup_zip\<close> has the members \<open>p/addon.xml\<close> with the data of \<open>first.id\<close>
  and \<open>p/addon.xml\<close> with the data of \<open>second.id\<close>, in that order.
\<close>

theorem descriptor_of_duplicated_name_is_last:
  "process_zip sample_parse dup_zip
     = Yield \<lparr>addon_id = ''second.id'', addon_ver = ''2.0'',
              elem = Element ''addon'' [(''id'', ''second.id''), (''version'', ''2.0'')] None [],
              zpath = ''/zips/dup.zip''\<rparr>"
  by code_simp

text \<open>
  Claim C10, amended. The name of the descriptor of an archive is the first name of its
  name list whose lower-cased form ends with \<open>/addon.xml\<close>; the descriptor used is the
  member that the archive gives for that name, which is the last member that bears it.
  What the archive yields or warns is decided by that member alone: the archive is
  processed as if it were its only member, so further matching names are ignored without
  a warning. The name \<open>addon.xml\<close> alone does not match, so an archive whose names are
  \<open>addon.xml\<close> or do not match is skipped with the warning that no descriptor was found.
\<close>

theorem descriptor_is_first_match:
  "(find_addon_xml names = Some n \<longleftrightarrow>
      (\<exists>pre post. names = pre @ n # post \<and> endswith (lower n) ''/addon.xml''
         \<and> (\<forall>m \<in> set pre. \<not> endswith (lower m) ''/addon.xml'')))
   \<and> (zopen a = Inr z \<longrightarrow> find_addon_xml (namelist z) = Some d \<longrightarrow>
        (\<exists>before r after. members z = before @ (d, r) # after \<and> d \<notin> fst ` set after
           \<and> zread z d = r)
        \<and> process_zip fromstring a =
            (case zread z d of
               Inl BadZipFile \<Rightarrow> Warn (''[WARN] Bad zip file: '' @ zip_path a)
             | Inl (OtherException msg) \<Rightarrow> Warn (''[WARN] '' @ zip_path a @ '': '' @ msg)
             | Inr data \<Rightarrow>
                 (case fromstring data of
                    Inl BadZipFile \<Rightarrow> Warn (''[WARN] Bad zip file: '' @ zip_path a)
                  | Inl (OtherException msg) \<Rightarrow> Warn (''[WARN] '' @ zip_path a @ '': '' @ msg)
                  | Inr el \<Rightarrow>
                      if falsy (map_of (attrib el) ''id'') \<or> falsy (map_of (attrib el) ''version'')
                      then Warn (''[WARN] Missing id/version in '' @ zip_path a)
                      else Yield \<lparr>addon_id = the (map_of (attrib el) ''id''),
                                  addon_ver = the (map_of (attrib el) ''version''),
                                  elem = el, zpath = zip_path a\<rparr>))
        \<and> process_zip fromstring (a\<lparr>zopen := Inr \<lparr>members = [(d, zread z d)]\<rparr>\<rparr>)
            = process_zip fromstring a)
   \<and> \<not> endswith (lower ''addon.xml'') ''/addon.xml''
   \<and> (zopen a = Inr z \<longrightarrow>
        (\<forall>m \<in> set (namelist z). m = ''addon.xml'' \<or> \<not> endswith (lower m) ''/addon.xml'') \<longrightarrow>
        process_zip fromstring a = Warn (''[WARN] No addon.xml found in '' @ zip_path a))"
proof (intro conjI impI)
  show "find_addon_xml names = Some n \<longleftrightarrow>
      (\<exists>pre post. names = pre @ n # post \<and> endswith (lower n) ''/addon.xml''
         \<and> (\<forall>m \<in> set pre. \<not> endswith (lower m) ''/addon.xml''))"
    by (rule find_addon_xml_Some)
  show root: "\<not> endswith (lower ''addon.xml'') ''/addon.xml''"
    by code_simp
  show "\<exists>before r after. members z = before @ (d, r) # after \<and> d \<notin> fst ` set after
           \<and> zread z d = r"
    if "zopen a = Inr z" "find_addon_xml (namelist z) = Some d"
  proof -
    from that(2) have "d \<in> set (namelist z)" by (rule find_addon_xml_in_set)
    then obtain before r after where m: "members z = before @ (d, r) # after"
      "d \<notin> fst ` set after"
      using members_last by blast
    then have "zread z d = r" by (rule zread_last)
    with m show ?thesis by blast
  qed
  show "process_zip fromstring a =
            (case zread z d of
               Inl BadZipFile \<Rightarrow> Warn (''[WARN] Bad zip file: '' @ zip_path a)
             | Inl (OtherException msg) \<Rightarrow> Warn (''[WARN] '' @ zip_path a @ '': '' @ msg)
             | Inr data \<Rightarrow>
                 (case fromstring data of
                    Inl BadZipFile \<Rightarrow> Warn (''[WARN] Bad zip file: '' @ zip_path a)
                  | Inl (OtherException msg) \<Rightarrow> Warn (''[WARN] '' @ zip_path a @ '': '' @ msg)
                  | Inr el \<Rightarrow>
                      if falsy (map_of (attrib el) ''id'') \<or> falsy (map_of (attrib el) ''version'')
                      then Warn (''[WARN] Missing id/version in '' @ zip_path a)
                      else Yield \<lparr>addon_id = the (map_of (attrib el) ''id''),
                                  addon_ver = the (map_of (attrib el) ''version''),
                                  elem = el, zpath = zip_path a\<rparr>))"
    if "zopen a = Inr z" "find_addon_xml (namelist z) = Some d"
    using that by (rule process_zip_found)
  show "process_zip fromstring (a\<lparr>zopen := Inr \<lparr>members = [(d, zread z d)]\<rparr>\<rparr>)
            = process_zip fromstring a"
    if "zopen a = Inr z" "find_addon_xml (namelist z) = Some d"
    using that by (rule process_zip_single)
  show "process_zip fromstring a = Warn (''[WARN] No addon.xml found in '' @ zip_path a)"
    if h1: "zopen a = Inr z"
      and h2: "\<forall>m \<in> set (namelist z). m = ''addon.xml'' \<or> \<not> endswith (lower m) ''/addon.xml''"
  proof -
    have "\<not> endswith (lower m) ''/addon.xml''" if m: "m \<in> set (namelist z)" for m
    proof (cases "m = ''addon.xml''")
      case True
      show ?thesis unfolding True by (rule root)
    next
      case False
      from h2 m have "m = ''addon.xml'' \<or> \<not> endswith (lower m) ''/addon.xml''" by (rule bspec)
      with False show ?thesis by (simp only: simp_thms)
    qed
    then have "find_addon_xml (namelist z) = None" by (simp add: find_addon_xml_None)
    with h1 show ?thesis by (rule process_zip_no_descriptor)
  qed
qed

theorem descriptor_is_first_match_witness:
  "find_addon_xml (map fst mixed_members) = Some ''Plugin/Addon.XML''
   \<and> zread \<lparr>members = mixed_members\<rparr> ''Plugin/Addon.XML'' = Inr ''plugin.x 1.0''
   \<and> process_zip sample_parse mixed_zip
       = Yield \<lparr>addon_id = ''plugin.x'', addon_ver = ''1.0'',
                elem = Element ''addon'' [(''id'', ''plugin.x''), (''version'', ''1.0'')] None [],
                zpath = ''/zips/mixed.zip''\<rparr>
   \<and> process_zip sample_parse
        (mixed_zip\<lparr>zopen := Inr \<lparr>members = [(''Plugin/Addon.XML'', Inr ''plugin.x 1.0'')]\<rparr>\<rparr>)
       = process_zip sample_parse mixed_zip
   \<and> process_zip sample_parse (sample_zip ''/zips/b.zip'' [''addon.xml'', ''icon.png''] ''plugin.x 1.0'')
       = Warn ''[WARN] No addon.xml found in /zips/b.zip''"
proof -
  let ?z = "\<lparr>members = mixed_members\<rparr>"
  let ?n = "''Plugin/Addon.XML''"
  have f0: "find_addon_xml (map fst mixed_members) = Some ?n" by code_simp
  then have f: "find_addon_xml (namelist ?z) = Some ?n" by (simp add: namelist_def)
  have o: "zopen mixed_zip = Inr ?z" by (simp add: mixed_zip_def)
  have zr: "zread ?z ?n = Inr ''plugin.x 1.0''" by code_simp
  have sp: "sample_parse ''plugin.x 1.0''
              = Inr (Element ''addon'' [(''id'', ''plugin.x''), (''version'', ''1.0'')] None [])"
    by code_simp
  have zp: "zip_path mixed_zip = ''/zips/mixed.zip''" by (simp add: mixed_zip_def)
  have ok: "\<not> (falsy (map_of (attrib (Element ''addon'' [(''id'', ''plugin.x''),
                (''version'', ''1.0'')] None [])) ''id'')
             \<or> falsy (map_of (attrib (Element ''addon'' [(''id'', ''plugin.x''),
                (''version'', ''1.0'')] None [])) ''version''))"
    by code_simp
  have i: "the (map_of (attrib (Element ''addon'' [(''id'', ''plugin.x''),
                (''version'', ''1.0'')] None [])) ''id'') = ''plugin.x''"
    and v: "the (map_of (attrib (Element ''addon'' [(''id'', ''plugin.x''),
                (''version'', ''1.0'')] None [])) ''version'') = ''1.0''"
    by code_simp+
  note t = descriptor_is_first_match
    [of "map fst mixed_members" ?n mixed_zip ?z ?n sample_parse]
  from t o f have "process_zip sample_parse mixed_zip =
            (case zread ?z ?n of
               Inl BadZipFile \<Rightarrow> Warn (''[WARN] Bad zip file: '' @ zip_path mixed_zip)
             | Inl (OtherException msg) \<Rightarrow> Warn (''[WARN] '' @ zip_path mixed_zip @ '': '' @ msg)
             | Inr data \<Rightarrow>
                 (case sample_parse data of
                    Inl BadZipFile \<Rightarrow> Warn (''[WARN] Bad zip file: '' @ zip_path mixed_zip)
                  | Inl (OtherException msg) \<Rightarrow>
                      Warn (''[WARN] '' @ zip_path mixed_zip @ '': '' @ msg)
                  | Inr el \<Rightarrow>
                      if falsy (map_of (attrib el) ''id'') \<or> falsy (map_of (attrib el) ''version'')
                      then Warn (''[WARN] Missing id/version in '' @ zip_path mixed_zip)
                      else Yield \<lparr>addon_id = the (map_of (attrib el) ''id''),
                                  addon_ver = the (map_of (attrib el) ''version''),
                                  elem = el, zpath = zip_path mixed_zip\<rparr>))"
    by blast
  then have g1: "process_zip sample_parse mixed_zip
       = Yield \<lparr>addon_id = ''plugin.x'', addon_ver = ''1.0'',
                elem = Element ''addon'' [(''id'', ''plugin.x''), (''version'', ''1.0'')] None [],
                zpath = ''/zips/mixed.zip''\<rparr>"
    unfolding zr sum.case sp zp i v using ok by (simp only: if_False)
  from t o f have "process_zip sample_parse
        (mixed_zip\<lparr>zopen := Inr \<lparr>members = [(?n, zread ?z ?n)]\<rparr>\<rparr>)
       = process_zip sample_parse mixed_zip"
    by blast
  then have g2: "process_zip sample_parse
        (mixed_zip\<lparr>zopen := Inr \<lparr>members = [(?n, Inr ''plugin.x 1.0'')]\<rparr>\<rparr>)
       = process_zip sample_parse mixed_zip"
    unfolding zr .
  let ?zb = "\<lparr>members = map (\<lambda>n. (n, Inr ''plugin.x 1.0'' :: exn + string))
                             [''addon.xml'', ''icon.png'']\<rparr>"
  let ?b = "sample_zip ''/zips/b.zip'' [''addon.xml'', ''icon.png''] ''plugin.x 1.0''"
  have ob: "zopen ?b = Inr ?zb" by (simp add: sample_zip_def)
  have "\<not> endswith (lower ''icon.png'') ''/addon.xml''" by code_simp
  then have nb: "\<forall>m \<in> set (namelist ?zb). m = ''addon.xml'' \<or> \<not> endswith (lower m) ''/addon.xml''"
    by (simp add: namelist_def)
  from descriptor_is_first_match [of "[]" "[]" ?b ?zb "[]" sample_parse] ob nb
  have "process_zip sample_parse ?b = Warn (''[WARN] No addon.xml found in '' @ zip_path ?b)"
    by blast
  then have g3: "process_zip sample_parse ?b = Warn ''[WARN] No addon.xml found in /zips/b.zip''"
    by (simp add: sample_zip_def)
  show ?thesis by (rule conjI [OF f0 conjI [OF zr conjI [OF g1 conjI [OF g2 g3]]]])
qed

end
